theory Spec2Isabelle
  imports Complex_Main
begin

section \<open>Strings and characters of the bot (discord-bot/src/services/whitelist.js)\<close>

text \<open>
  A JavaScript string is a sequence of UTF-16 code units. The model reads a \<open>char\<close> as
  the code unit of the same number, so it covers every text whose code units are below
  256 (ASCII and Latin-1); the whitelist file and the role codes are ASCII.
\<close>

abbreviation SQ :: char where "SQ \<equiv> CHR 0x27"
abbreviation DQ :: char where "DQ \<equiv> CHR 0x22"
abbreviation TAB :: char where "TAB \<equiv> CHR 0x09"
abbreviation LF :: char where "LF \<equiv> CHR 0x0A"

text \<open>The class \<open>\s\<close> of a JavaScript regular expression, which is also what
  \<open>String.prototype.trim\<close> strips: TAB, LF, VT, FF, CR, space and U+00A0 (the members
  below 256).\<close>

definition is_space :: "char \<Rightarrow> bool" where
  "is_space c \<longleftrightarrow> c \<in> set [CHR 0x09, CHR 0x0A, CHR 0x0B, CHR 0x0C, CHR 0x0D, CHR 0x20, CHR 0xA0]"

text \<open>The class \<open>\d\<close>: the ten ASCII digits.\<close>

definition is_digit :: "char \<Rightarrow> bool" where
  "is_digit c \<longleftrightarrow> c \<in> set ''0123456789''"

text \<open>\<open>String.prototype.toUpperCase\<close> on code units below 256: the ASCII and Latin-1
  small letters move down by 32 and the sharp s becomes \<open>SS\<close>. The micro sign and the
  y with diaeresis have their capital outside Latin-1; they stay as they are here, which
  no comparison with an ASCII role code can observe.\<close>

definition upper_char :: "char \<Rightarrow> string" where
  "upper_char c =
     (let n = (of_char c :: nat) in
      if (97 \<le> n \<and> n \<le> 122) \<or> (224 \<le> n \<and> n \<le> 254 \<and> n \<noteq> 247) then [char_of (n - 32)]
      else if n = 223 then ''SS''
      else [c])"

definition toUpperCase :: "string \<Rightarrow> string" where
  "toUpperCase s = concat (map upper_char s)"

text \<open>\<open>s.trim()\<close>.\<close>

definition trim :: "string \<Rightarrow> string" where
  "trim s = rev (dropWhile is_space (rev (dropWhile is_space s)))"

text \<open>\<open>s.split(',')\<close>: the pieces between the commas; the empty string gives one empty
  piece.\<close>

fun split_comma :: "string \<Rightarrow> string list" where
  "split_comma [] = [[]]"
| "split_comma (c # cs) =
     (if c = CHR '','' then [] # split_comma cs
      else (case split_comma cs of [] \<Rightarrow> [[c]] | p # ps \<Rightarrow> (c # p) # ps))"

text \<open>\<open>xs.join(sep)\<close>.\<close>

fun join :: "string \<Rightarrow> string list \<Rightarrow> string" where
  "join sep [] = []"
| "join sep [x] = x"
| "join sep (x # y # ys) = x @ sep @ join sep (y # ys)"

section \<open>Regular expressions: the fragment the bot uses, with backtracking\<close>

text \<open>
  The patterns of whitelist.js are concatenations of literals, character classes,
  quantified character classes (\<open>*\<close>, \<open>+\<close>, \<open>{n}\<close>, all greedy) and capturing groups.
  \<open>rx_match r (s, caps)\<close> lists every way \<open>r\<close> can match a prefix of \<open>s\<close>, in the order a
  backtracking matcher tries them: each entry is the rest of the input and the captures
  closed so far. The match JavaScript reports is the head of the list.
\<close>

datatype cls = Space | Digit | One_of string | None_of string

fun in_cls :: "cls \<Rightarrow> char \<Rightarrow> bool" where
  "in_cls Space c = is_space c"
| "in_cls Digit c = is_digit c"
| "in_cls (One_of cs) c = (c \<in> set cs)"
| "in_cls (None_of cs) c = (c \<notin> set cs)"

datatype rx =
    Lit string
  | Cls cls
  | Star cls
  | Plus cls
  | Rep nat cls
  | Seq rx rx
  | Grp rx

text \<open>The rests a greedy \<open>*\<close> over a class can leave: the longest run first, then one
  character given back at a time.\<close>

fun star_res :: "(char \<Rightarrow> bool) \<Rightarrow> string \<Rightarrow> string list" where
  "star_res p [] = [[]]"
| "star_res p (x # xs) = (if p x then star_res p xs @ [x # xs] else [x # xs])"

fun rx_match :: "rx \<Rightarrow> string \<times> string list \<Rightarrow> (string \<times> string list) list" where
  "rx_match (Lit l) (s, caps) =
     (if take (length l) s = l then [(drop (length l) s, caps)] else [])"
| "rx_match (Cls c) (s, caps) =
     (case s of [] \<Rightarrow> [] | x # xs \<Rightarrow> if in_cls c x then [(xs, caps)] else [])"
| "rx_match (Star c) (s, caps) = map (\<lambda>t. (t, caps)) (star_res (in_cls c) s)"
| "rx_match (Plus c) (s, caps) =
     (case s of [] \<Rightarrow> []
      | x # xs \<Rightarrow> if in_cls c x then map (\<lambda>t. (t, caps)) (star_res (in_cls c) xs) else [])"
| "rx_match (Rep n c) (s, caps) =
     (if n \<le> length s \<and> list_all (in_cls c) (take n s) then [(drop n s, caps)] else [])"
| "rx_match (Seq a b) st = concat (map (rx_match b) (rx_match a st))"
| "rx_match (Grp a) (s, caps) =
     map (\<lambda>(t, caps'). (t, caps' @ [take (length s - length t) s])) (rx_match a (s, caps))"

fun seqs :: "rx list \<Rightarrow> rx" where
  "seqs [] = Lit []"
| "seqs [r] = r"
| "seqs (r # rs) = Seq r (seqs rs)"

text \<open>A pattern without the \<open>g\<close> flag is tried at every start position from the left;
  the first position with a match wins. The result is the text before the match, the
  text after it and the captures.\<close>

fun rx_exec :: "rx \<Rightarrow> string \<Rightarrow> string \<Rightarrow> (string \<times> string \<times> string list) option" where
  "rx_exec r pre [] =
     (case rx_match r ([], []) of [] \<Rightarrow> None | (t, caps) # _ \<Rightarrow> Some (pre, t, caps))"
| "rx_exec r pre (x # xs) =
     (case rx_match r (x # xs, []) of
        [] \<Rightarrow> rx_exec r (pre @ [x]) xs
      | (t, caps) # _ \<Rightarrow> Some (pre, t, caps))"

text \<open>A pattern \<open>^r$\<close> (no \<open>m\<close> flag) matches when some way of matching \<open>r\<close> at the start
  consumes the whole string.\<close>

definition rx_full :: "rx \<Rightarrow> string \<Rightarrow> bool" where
  "rx_full r s \<longleftrightarrow> list_ex (\<lambda>st. fst st = []) (rx_match r (s, []))"

text \<open>The replacement template of \<open>String.prototype.replace\<close> (GetSubstitution): \<open>$$\<close>,
  \<open>$&\<close>, the text before and after the match, and \<open>$n\<close>, \<open>$nn\<close> for the captures; any
  other \<open>$\<close> stands for itself.\<close>

definition digit_val :: "char \<Rightarrow> nat" where
  "digit_val c = of_char c - 48"

fun get_substitution :: "string \<Rightarrow> string \<Rightarrow> string \<Rightarrow> string list \<Rightarrow> string \<Rightarrow> string" where
  "get_substitution matched pre post caps [] = []"
| "get_substitution matched pre post caps (c # t) =
     (if c \<noteq> CHR ''$'' then c # get_substitution matched pre post caps t
      else (case t of
          [] \<Rightarrow> [c]
        | d # t' \<Rightarrow>
            if d = CHR ''$'' then CHR ''$'' # get_substitution matched pre post caps t'
            else if d = CHR ''&'' then matched @ get_substitution matched pre post caps t'
            else if d = CHR 0x60 then pre @ get_substitution matched pre post caps t'
            else if d = SQ then post @ get_substitution matched pre post caps t'
            else if is_digit d then
              (case t' of
                 d2 # t'' \<Rightarrow>
                   if is_digit d2 \<and> 10 * digit_val d + digit_val d2 \<le> length caps then
                     (if 10 * digit_val d + digit_val d2 = 0
                      then c # get_substitution matched pre post caps t
                      else caps ! (10 * digit_val d + digit_val d2 - 1)
                             @ get_substitution matched pre post caps t'')
                   else if digit_val d = 0 \<or> length caps < digit_val d
                     then c # get_substitution matched pre post caps t
                     else caps ! (digit_val d - 1) @ get_substitution matched pre post caps t'
               | [] \<Rightarrow>
                   if digit_val d = 0 \<or> length caps < digit_val d
                   then c # get_substitution matched pre post caps t
                   else caps ! (digit_val d - 1) @ get_substitution matched pre post caps t')
            else c # get_substitution matched pre post caps t))"

text \<open>\<open>s.match(r)\<close> gives the captures of the first match, \<open>s.replace(r, template)\<close>
  replaces the first match by the expanded template and leaves a string without a match
  as it is.\<close>

definition js_match :: "rx \<Rightarrow> string \<Rightarrow> string list option" where
  "js_match r s = map_option (\<lambda>(pre, post, caps). caps) (rx_exec r [] s)"

definition js_replace :: "rx \<Rightarrow> string \<Rightarrow> string \<Rightarrow> string" where
  "js_replace r template s =
     (case rx_exec r [] s of
        None \<Rightarrow> s
      | Some (pre, post, caps) \<Rightarrow>
          pre @ get_substitution (take (length s - length pre - length post) (drop (length pre) s))
                  pre post caps template @ post)"

section \<open>The whitelist service (class WhitelistService)\<close>

text \<open>\<open>config.whitelistRoles\<close> of discord-bot/src/config.js: the role codes with their
  descriptions.\<close>

definition whitelistRoles :: "(string \<times> string) list" where
  "whitelistRoles =
     [(''S3'', ''Whitelisted Roles + Skins Access''),
      (''CAS'', ''Fixed-wing Jets Access''),
      (''S1'', ''Commander Role Access''),
      (''OPFOR'', ''OPFOR Slots Access''),
      (''ALL'', ''All Staff UIDs (required for all staff)''),
      (''ADMIN'', ''Admin Tools Access''),
      (''MODERATOR'', ''Moderator Access''),
      (''TRUSTED'', ''Trusted Non-Staff Access''),
      (''MEDIA'', ''Media/Camera Access''),
      (''CURATOR'', ''Zeus/Mission Curation Access''),
      (''DEVELOPER'', ''Developer/Debug Console Access'')]"

text \<open>\<open>config.whitelistRoles.map((r) => r.name)\<close>.\<close>

definition validRoles :: "string list" where
  "validRoles = map fst whitelistRoles"

text \<open>
  The two patterns are built from the role code. Every code that reaches them is one of
  \<open>validRoles\<close>, letters and digits only, so the code stands for itself in the pattern.
  Their common part, in three pieces:
  \<^verbatim>\<open>if\s*\(\s*_type\s+isEqualTo\s+['"]ROLE['"]\s*\)\s*then\s*\{\<close>, then \<^verbatim>\<open>[^}]*\<close>, then
  \<^verbatim>\<open>_return\s*=\s*\[\<close>.
\<close>

definition guard_rx :: "string \<Rightarrow> rx" where
  "guard_rx role =
     seqs [Lit ''if'', Star Space, Lit ''('', Star Space, Lit ''_type'', Plus Space,
           Lit ''isEqualTo'', Plus Space, Cls (One_of [SQ, DQ]), Lit role, Cls (One_of [SQ, DQ]),
           Star Space, Lit '')'', Star Space, Lit ''then'', Star Space, Lit ''{'']"

definition return_rx :: rx where
  "return_rx = seqs [Lit ''_return'', Star Space, Lit ''='', Star Space, Lit ''['']"

definition head_rx :: "string \<Rightarrow> rx" where
  "head_rx role = Seq (guard_rx role) (Seq (Star (None_of ''}'')) return_rx)"

text \<open>parseContent: the head, then \<^verbatim>\<open>([^\]]+)\]\<close>.\<close>

definition list_rx :: rx where
  "list_rx = Seq (Grp (Plus (None_of '']''))) (Lit '']'')"

definition parse_rx :: "string \<Rightarrow> rx" where
  "parse_rx role = Seq (head_rx role) list_rx"

text \<open>updateWhitelistInContent: the head as group 1, then \<^verbatim>\<open>[^\]]*(\])\<close>.\<close>

definition close_rx :: rx where
  "close_rx = Seq (Star (None_of '']'')) (Grp (Lit '']''))"

definition update_rx :: "string \<Rightarrow> rx" where
  "update_rx role = Seq (Grp (head_rx role)) close_rx"

datatype error = File_not_found | Type_error

text \<open>The chain on the captured list text: split on commas, trim, drop the quote
  characters, keep the pieces that match \<^verbatim>\<open>^\d+$\<close>.\<close>

definition extract_uids :: "string \<Rightarrow> string list" where
  "extract_uids uidsString =
     filter (\<lambda>uid. uid \<noteq> [] \<and> rx_full (Plus Digit) uid)
       (map (\<lambda>uid. filter (\<lambda>c. c \<notin> set [SQ, DQ]) (trim uid)) (split_comma uidsString))"

text \<open>The loop of parseContent over the roles. \<open>match[1]\<close> of a match without a
  first capture would be undefined, and \<open>split\<close> on it a TypeError.\<close>

fun parse_roles ::
  "string list \<Rightarrow> string \<Rightarrow> (string \<rightharpoonup> string list) \<Rightarrow> error + (string \<rightharpoonup> string list)" where
  "parse_roles [] content whitelists = Inr whitelists"
| "parse_roles (role # roles) content whitelists =
     (case js_match (parse_rx role) content of
        Some caps \<Rightarrow>
          (case caps of
             [] \<Rightarrow> Inl Type_error
           | uidsString # _ \<Rightarrow>
               parse_roles roles content (whitelists(role \<mapsto> extract_uids uidsString)))
      | None \<Rightarrow> parse_roles roles content (whitelists(role \<mapsto> [])))"

definition parseContent :: "string \<Rightarrow> error + (string \<rightharpoonup> string list)" where
  "parseContent content = parse_roles validRoles content Map.empty"

definition format_uids :: "string list \<Rightarrow> string" where
  "format_uids uids =
     (let formattedUids = join ('','' @ [LF]) (map (\<lambda>uid. [TAB, TAB, SQ] @ uid @ [SQ]) uids)
      in if formattedUids \<noteq> [] then [LF] @ formattedUids @ [LF, TAB] else [LF, TAB])"

definition updateWhitelistInContent :: "string \<Rightarrow> string \<Rightarrow> string list \<Rightarrow> string" where
  "updateWhitelistInContent content role uids =
     js_replace (update_rx role) (''$1'' @ format_uids uids @ ''$2'') content"

text \<open>The file at \<open>filePath\<close> is the state: \<open>None\<close> when it does not exist (readFile
  throws), \<open>Some content\<close> otherwise. The operations return their reply and the file
  after the call.\<close>

definition readFile :: "string option \<Rightarrow> error + string" where
  "readFile file = (case file of None \<Rightarrow> Inl File_not_found | Some content \<Rightarrow> Inr content)"

text \<open>The replies of addUid and removeUid, one for each \<open>return\<close> of the source; the
  first four have \<open>success: false\<close>.\<close>

datatype reply =
    InvalidRole
  | InvalidIdentifierFormat
  | AlreadyWhitelisted
  | NotWhitelisted
  | Added
  | Removed

definition success :: "reply \<Rightarrow> bool" where
  "success r \<longleftrightarrow> r = Added \<or> r = Removed"

definition addUid :: "string \<Rightarrow> string \<Rightarrow> string option \<Rightarrow> error + (reply \<times> string option)" where
  "addUid role uid file =
     (if toUpperCase role \<notin> set validRoles then Inr (InvalidRole, file)
      else if \<not> rx_full (Rep 17 Digit) uid then Inr (InvalidIdentifierFormat, file)
      else
        (case readFile file of
           Inl e \<Rightarrow> Inl e
         | Inr content \<Rightarrow>
             (case parseContent content of
                Inl e \<Rightarrow> Inl e
              | Inr whitelists \<Rightarrow>
                  (let normalizedRole = toUpperCase role in
                   if (case whitelists normalizedRole of None \<Rightarrow> False | Some uids \<Rightarrow> uid \<in> set uids)
                   then Inr (AlreadyWhitelisted, file)
                   else
                     Inr (Added,
                          Some (updateWhitelistInContent content normalizedRole
                                  ((case whitelists normalizedRole of None \<Rightarrow> [] | Some uids \<Rightarrow> uids)
                                    @ [uid])))))))"

definition removeUid :: "string \<Rightarrow> string \<Rightarrow> string option \<Rightarrow> error + (reply \<times> string option)" where
  "removeUid role uid file =
     (if toUpperCase role \<notin> set validRoles then Inr (InvalidRole, file)
      else
        (case readFile file of
           Inl e \<Rightarrow> Inl e
         | Inr content \<Rightarrow>
             (case parseContent content of
                Inl e \<Rightarrow> Inl e
              | Inr whitelists \<Rightarrow>
                  (let normalizedRole = toUpperCase role;
                       currentUids = (case whitelists normalizedRole of None \<Rightarrow> [] | Some uids \<Rightarrow> uids)
                   in if uid \<notin> set currentUids then Inr (NotWhitelisted, file)
                      else
                        Inr (Removed,
                             Some (updateWhitelistInContent content normalizedRole
                                     (filter (\<lambda>u. u \<noteq> uid) currentUids)))))))"

definition getUids :: "string \<Rightarrow> string option \<Rightarrow> error + string list" where
  "getUids role file =
     (case readFile file of
        Inl e \<Rightarrow> Inl e
      | Inr content \<Rightarrow>
          (case parseContent content of
             Inl e \<Rightarrow> Inl e
           | Inr whitelists \<Rightarrow>
               Inr (case whitelists (toUpperCase role) of None \<Rightarrow> [] | Some uids \<Rightarrow> uids)))"

section \<open>The database read path (fn_whitelistDB.sqf)\<close>

text \<open>
  SQF values as far as the function handles them. The variables of \<open>missionNamespace\<close>
  it reads and writes are a record; \<open>None\<close> is an unset variable. \<open>diag_tickTime\<close> is a
  parameter, with exact arithmetic on the seconds.
\<close>

datatype sqf = Str string | Num real | Arr "sqf list"

record namespace =
  QS_server_isUsingDB :: "bool option"
  QS_whitelist_cacheDuration :: "real option"
  QS_whitelist_cache :: "string \<Rightarrow> sqf list option"
  QS_whitelist_cacheTime :: "string \<Rightarrow> real option"

definition validTypes :: "string list" where
  "validTypes = [''S3'', ''CAS'', ''S1'', ''OPFOR'', ''ALL'', ''ADMIN'', ''MODERATOR'', ''TRUSTED'',
                 ''MEDIA'', ''CURATOR'', ''DEVELOPER'']"

text \<open>What the extension answers inside the \<open>try\<close> block: the block throws; or the query
  is asynchronous (\<open>_queryResult\<close> is \<open>[1]\<close> or \<open>["1"]\<close>) and polling ends with the parsed
  result or, on the timeout, with none; or it is synchronous, with the parsed
  \<open>_queryResult\<close>, or none when that is empty or \<open>[0]\<close>.\<close>

datatype db_answer = Thrown | Async "sqf list option" | Sync "sqf list option"

definition pushBackUnique :: "sqf list \<Rightarrow> sqf \<Rightarrow> sqf list" where
  "pushBackUnique xs v = (if v \<in> set xs then xs else xs @ [v])"

text \<open>The body of both \<open>forEach\<close> loops.\<close>

fun collect_rows :: "sqf list \<Rightarrow> sqf list \<Rightarrow> sqf list" where
  "collect_rows ret [] = ret"
| "collect_rows ret (Arr (v # vs) # xs) = collect_rows (pushBackUnique ret v) xs"
| "collect_rows ret (Str s # xs) = collect_rows (pushBackUnique ret (Str s)) xs"
| "collect_rows ret (x # xs) = collect_rows ret xs"

definition query_db :: "db_answer \<Rightarrow> (string \<Rightarrow> sqf list) \<Rightarrow> string \<Rightarrow> sqf list" where
  "query_db answer QS_fnc_whitelistFile typ =
     (case answer of
        Thrown \<Rightarrow> QS_fnc_whitelistFile typ
      | Async None \<Rightarrow> []
      | Async (Some parsed) \<Rightarrow> collect_rows [] parsed
      | Sync None \<Rightarrow> []
      | Sync (Some parsed) \<Rightarrow>
          (case parsed of
             status # Arr data # rest \<Rightarrow> collect_rows [] data
           | _ \<Rightarrow> []))"

definition QS_fnc_whitelistDB ::
  "string \<Rightarrow> bool \<Rightarrow> namespace \<Rightarrow> real \<Rightarrow> db_answer \<Rightarrow> (string \<Rightarrow> sqf list) \<Rightarrow> sqf list \<times> namespace" where
  "QS_fnc_whitelistDB typ forceRefresh ns currentTime answer QS_fnc_whitelistFile =
     (if typ \<notin> set validTypes then ([], ns)
      else if \<not> (case QS_server_isUsingDB ns of None \<Rightarrow> False | Some b \<Rightarrow> b)
        then (QS_fnc_whitelistFile typ, ns)
      else
        (let cacheDuration = (case QS_whitelist_cacheDuration ns of None \<Rightarrow> 300 | Some d \<Rightarrow> d);
             cachedResult = (case QS_whitelist_cache ns typ of None \<Rightarrow> [] | Some r \<Rightarrow> r);
             cacheTime = (case QS_whitelist_cacheTime ns typ of None \<Rightarrow> 0 | Some t \<Rightarrow> t)
         in if \<not> forceRefresh \<and> length cachedResult > 0 \<and> currentTime - cacheTime < cacheDuration
            then (cachedResult, ns)
            else
              (let queried = query_db answer QS_fnc_whitelistFile typ;
                   ret = (if length queried = 0 then QS_fnc_whitelistFile typ else queried)
               in (ret,
                   ns\<lparr>QS_whitelist_cache := (QS_whitelist_cache ns)(typ \<mapsto> ret),
                      QS_whitelist_cacheTime := (QS_whitelist_cacheTime ns)(typ \<mapsto> currentTime)\<rparr>))))"

section \<open>Notions for the proofs\<close>

text \<open>The number of capturing groups of a pattern, and the characters a text it matches
  can contain.\<close>

fun ngroups :: "rx \<Rightarrow> nat" where
  "ngroups (Seq a b) = ngroups a + ngroups b"
| "ngroups (Grp a) = Suc (ngroups a)"
| "ngroups r = 0"

fun alphabet :: "rx \<Rightarrow> char set" where
  "alphabet (Lit l) = set l"
| "alphabet (Cls c) = {x. in_cls c x}"
| "alphabet (Star c) = {x. in_cls c x}"
| "alphabet (Plus c) = {x. in_cls c x}"
| "alphabet (Rep n c) = {x. in_cls c x}"
| "alphabet (Seq a b) = alphabet a \<union> alphabet b"
| "alphabet (Grp a) = alphabet a"

text \<open>What parseContent stores for one role: the identifiers of the first match of the
  role's pattern, or nothing.\<close>

definition role_uids :: "string \<Rightarrow> string \<Rightarrow> string list" where
  "role_uids role content =
     (case js_match (parse_rx role) content of
        Some (uidsString # _) \<Rightarrow> extract_uids uidsString
      | _ \<Rightarrow> [])"

text \<open>An identifier in the format addUid asks for.\<close>

definition steam_uid :: "string \<Rightarrow> bool" where
  "steam_uid uid \<longleftrightarrow> length uid = 17 \<and> list_all is_digit uid"

text \<open>The guarded block of a role, as whitelist.sqf writes it, with the given text
  between the brackets.\<close>

definition block :: "string \<Rightarrow> string \<Rightarrow> string" where
  "block role body =
     ''if (_type isEqualTo '' @ [SQ] @ role @ [SQ] @ '') then {'' @ [LF, TAB]
       @ ''_return = ['' @ body @ ''];'' @ [LF] @ ''};'' @ [LF]"

definition quoted :: "string \<Rightarrow> string" where
  "quoted uid = [SQ] @ uid @ [SQ]"

text \<open>Example files: a whitelist with blocks for S3 and ADMIN only (the ADMIN list
  holds no identifier), and one whose S3 list holds an 18-digit legacy value.\<close>

definition small_file :: string where
  "small_file =
     ''// whitelist'' @ [LF]
       @ block ''S3'' (quoted ''76561198000000001'' @ '','' @ quoted ''76561198000000002'')
       @ block ''ADMIN'' '' ''"


text \<open>An example state of the read path: the database is in use and a result for ADMIN
  was cached at second 100.\<close>

definition cached_ns :: namespace where
  "cached_ns =
     \<lparr>QS_server_isUsingDB = Some True,
      QS_whitelist_cacheDuration = None,
      QS_whitelist_cache = [''ADMIN'' \<mapsto> [Str ''76561198000000001'']],
      QS_whitelist_cacheTime = [''ADMIN'' \<mapsto> 100]\<rparr>"

definition file_list :: "string \<Rightarrow> sqf list" where
  "file_list typ = (if typ = ''ADMIN'' then [Str ''76561198000000009''] else [])"

text \<open>
  A text \<open>g\<close> that a pattern matches in exactly one way whatever follows it, a pattern
  with at most one way to match that always consumes such a text, and a pattern that
  cannot start with a character of a class.
\<close>

definition frames :: "rx \<Rightarrow> string \<Rightarrow> bool" where
  "frames r g \<longleftrightarrow> (\<forall>t cs. rx_match r (g @ t, cs) = [(t, cs)])"

definition det :: "rx \<Rightarrow> bool" where
  "det r \<longleftrightarrow>
     (\<forall>s cs. rx_match r (s, cs) = [] \<or>
        (\<exists>g t. s = g @ t \<and> frames r g \<and> rx_match r (s, cs) = [(t, cs)]))"

definition rejects :: "(char \<Rightarrow> bool) \<Rightarrow> rx \<Rightarrow> bool" where
  "rejects p r \<longleftrightarrow> (\<forall>x xs cs. p x \<longrightarrow> rx_match r (x # xs, cs) = [])"

text \<open>The text up to the first closing bracket, and the text after that bracket.\<close>

definition close_bracket :: "string \<Rightarrow> (string \<times> string) option" where
  "close_bracket v =
     (case dropWhile (\<lambda>x. x \<noteq> CHR '']'') v of
        [] \<Rightarrow> None
      | _ # w \<Rightarrow> Some (takeWhile (\<lambda>x. x \<noteq> CHR '']'') v, w))"

text \<open>A way to read a text as a block of the role: the guard \<open>g\<close>, a stretch \<open>a\<close> without
  a closing brace, the assignment head \<open>h\<close>, the list text \<open>c\<close> up to the first closing
  bracket, and the rest \<open>w\<close>.\<close>

definition blk :: "string \<Rightarrow> string \<Rightarrow> string \<Rightarrow> string \<Rightarrow> string \<Rightarrow> string \<Rightarrow> string \<Rightarrow> bool" where
  "blk role s g a h c w \<longleftrightarrow>
     s = g @ a @ h @ c @ '']'' @ w \<and> frames (guard_rx role) g \<and> CHR ''}'' \<notin> set a \<and>
     frames return_rx h \<and> CHR '']'' \<notin> set c"

text \<open>Where the pattern of updateWhitelistInContent matches: after \<open>pre\<close>, as the block
  \<open>g a h c\<close> with the longest possible stretch \<open>a\<close>, and nowhere further left.\<close>

definition located ::
  "string \<Rightarrow> string \<Rightarrow> string \<Rightarrow> string \<Rightarrow> string \<Rightarrow> string \<Rightarrow> string \<Rightarrow> string \<Rightarrow> bool" where
  "located role content pre g a h c post \<longleftrightarrow>
     content = pre @ g @ a @ h @ c @ '']'' @ post \<and>
     blk role (g @ a @ h @ c @ '']'' @ post) g a h c post \<and>
     (\<forall>g' a' h' c' w'. blk role (g @ a @ h @ c @ '']'' @ post) g' a' h' c' w' \<longrightarrow> length a' \<le> length a) \<and>
     (\<forall>b1 b2. pre = b1 @ b2 \<and> b2 \<noteq> [] \<longrightarrow>
        rx_match (update_rx role) (b2 @ g @ a @ h @ c @ '']'' @ post, []) = [])"

text \<open>A non-empty string of digits.\<close>

definition digit_string :: "string \<Rightarrow> bool" where
  "digit_string uid \<longleftrightarrow> uid \<noteq> [] \<and> list_all is_digit uid"

text \<open>One formatted entry of the list, and what parseContent makes of one piece between
  commas.\<close>

definition piece :: "string \<Rightarrow> string" where
  "piece uid = [TAB, TAB, SQ] @ uid @ [SQ]"

definition clean :: "string \<Rightarrow> string" where
  "clean p = filter (\<lambda>c. c \<notin> set [SQ, DQ]) (trim p)"

text \<open>
  The list text that updateWhitelistInContent would replace for a role: the text between
  the first capture of its pattern's first match and the closing bracket.
\<close>

definition old_list_text :: "string \<Rightarrow> string \<Rightarrow> string option" where
  "old_list_text role content =
     (case rx_exec (update_rx role) [] content of
        None \<Rightarrow> None
      | Some (pre, post, caps) \<Rightarrow>
          (case caps of
             [] \<Rightarrow> None
           | g1 # _ \<Rightarrow>
               Some (take (length content - length pre - length g1 - 1 - length post)
                       (drop (length pre + length g1) content))))"

text \<open>
  A text is well-formed for a role when the pattern of updateWhitelistInContent finds a
  block for the role and the list text between its brackets holds no closing brace.
\<close>

definition well_formed :: "string \<Rightarrow> string \<Rightarrow> bool" where
  "well_formed role content \<longleftrightarrow>
     (case old_list_text role content of None \<Rightarrow> False | Some c \<Rightarrow> CHR ''}'' \<notin> set c)"

text \<open>
  An example file that is not well-formed for S3: a comment with a closing brace stands
  inside the first list, and a second assignment follows before the block ends. With it,
  the same file after addUid has put 76561198000000003 into the first list, and after
  removeUid has emptied the first list.
\<close>

definition braced :: "string \<Rightarrow> string" where
  "braced body =
     ''if (_type isEqualTo '' @ [SQ] @ ''S3'' @ [SQ] @ '') then { _return = ['' @ body
       @ '']; _return = ['' @ quoted ''76561198000000001'' @ '']; };''"

definition braced_file :: string where
  "braced_file = braced (quoted ''76561198000000001'' @ '', /*}*/'')"

definition braced_file_added :: string where
  "braced_file_added =
     braced ([LF, TAB, TAB] @ quoted ''76561198000000001'' @ '','' @ [LF, TAB, TAB]
               @ quoted ''76561198000000003'' @ [LF, TAB])"

definition braced_file_removed :: string where
  "braced_file_removed = braced [LF, TAB]"

text \<open>
  The guarded block of a role with a comment before the assignment, as the shipped
  whitelist.sqf writes it. Two example files with such blocks: one with its header
  comments and blocks for CAS and ADMIN (the parameter is the list text of ADMIN), and one
  whose ADMIN comment holds a pair of braces.
\<close>

definition noted_block :: "string \<Rightarrow> string \<Rightarrow> string \<Rightarrow> string" where
  "noted_block role note body =
     ''if (_type isEqualTo '' @ [SQ] @ role @ [SQ] @ '') then {'' @ [LF, TAB] @ note @ [LF, TAB]
       @ ''_return = ['' @ body @ ''];'' @ [LF] @ ''};'' @ [LF]"

definition shipped_head :: string where
  "shipped_head =
     ''//===== CAS JET'' @ [LF]
       @ noted_block ''CAS'' ''/*/These IDs have access to fixed-wing Jets (if enabled)/*/''
           ([LF, TAB, TAB] @ quoted ''76561198000000003'' @ [LF, TAB])
       @ ''//===== ADMIN IDs/*/'' @ [LF]"

definition shipped :: "string \<Rightarrow> string" where
  "shipped body = shipped_head @ noted_block ''ADMIN'' ''/*/ Admin UIDs. /*/'' body"

definition shipped_file :: string where
  "shipped_file = shipped ([LF, TAB, TAB] @ quoted ''76561198000000001'' @ [LF, TAB])"

definition noted_file :: string where
  "noted_file =
     noted_block ''ADMIN'' ''/*/ Admin UIDs {see docs} /*/''
       ([LF, TAB, TAB] @ quoted ''76561198000000001'' @ [LF, TAB])"

text \<open>
  An example file in which a commented-out guard of CAS stands above the block of S3, and
  the block of CAS follows; the parameters are the list texts of the two blocks.
\<close>

definition shadowed :: "string \<Rightarrow> string \<Rightarrow> string" where
  "shadowed s3 cas =
     ''// if (_type isEqualTo '' @ [SQ] @ ''CAS'' @ [SQ] @ '') then {'' @ [LF]
       @ block ''S3'' s3 @ block ''CAS'' cas"

definition shadowed_file :: string where
  "shadowed_file = shadowed (quoted ''76561198000000001'') (quoted ''76561198000000002'')"

text \<open>
  A pattern that matches at no position of a text \<open>pre\<close>, read with the text \<open>t\<close> after it.
\<close>

fun absent :: "rx \<Rightarrow> string \<Rightarrow> string \<Rightarrow> bool" where
  "absent r [] t = True"
| "absent r (x # xs) t = (rx_match r (x # xs @ t, []) = [] \<and> absent r xs t)"

text \<open>
  The role's own block stands in the text after \<open>pre\<close>: the guard \<open>g\<close> of the role, which
  occurs nowhere in \<open>pre\<close>; a stretch \<open>note\<close> with no closing brace and no underscore, so with
  no other guard and no other assignment; the assignment head \<open>h\<close>; the list text \<open>body\<close>;
  the closing bracket; a stretch \<open>e\<close> and the closing brace of the block. The list text
  holds no closing bracket, and the list text and \<open>e\<close> hold no closing brace and no
  underscore.
\<close>

definition own_block ::
  "string \<Rightarrow> string \<Rightarrow> string \<Rightarrow> string \<Rightarrow> string \<Rightarrow> string \<Rightarrow> string \<Rightarrow> string \<Rightarrow> string \<Rightarrow> bool" where
  "own_block role content pre g note h body e post \<longleftrightarrow>
     content = pre @ g @ note @ h @ body @ '']'' @ e @ ''}'' @ post \<and>
     absent (guard_rx role) pre (g @ note @ h @ body @ '']'' @ e @ ''}'' @ post) \<and>
     rx_full (guard_rx role) g \<and> rx_full return_rx h \<and>
     CHR ''}'' \<notin> set note \<and> CHR ''_'' \<notin> set note \<and>
     CHR '']'' \<notin> set body \<and> CHR ''}'' \<notin> set body \<and> CHR ''_'' \<notin> set body \<and>
     CHR ''}'' \<notin> set e \<and> CHR ''_'' \<notin> set e"

section \<open>Facts about the matcher\<close>

lemma star_res_suffix: "t \<in> set (star_res p s) \<Longrightarrow> \<exists>w. s = w @ t \<and> list_all p w"
proof (induction s)
  case Nil
  then show ?case by simp
next
  case (Cons x xs)
  show ?case
  proof (cases "t = x # xs")
    case True
    then show ?thesis by simp
  next
    case False
    with Cons.prems have px: "p x" and "t \<in> set (star_res p xs)"
      by (auto split: if_splits)
    then obtain w where "xs = w @ t" "list_all p w" using Cons.IH by blast
    with px have "x # xs = (x # w) @ t \<and> list_all p (x # w)" by simp
    then show ?thesis by blast
  qed
qed

lemma rx_match_shape:
  "(t, cs') \<in> set (rx_match r (s, cs)) \<Longrightarrow>
     \<exists>w new. s = w @ t \<and> cs' = cs @ new \<and> length new = ngroups r \<and> set w \<subseteq> alphabet r"
proof (induction r arbitrary: s cs t cs')
  case (Lit l)
  then have "take (length l) s = l" "t = drop (length l) s" "cs' = cs"
    by (auto split: if_splits)
  then have "s = l @ t" by (metis append_take_drop_id)
  with \<open>cs' = cs\<close> show ?case by simp
next
  case (Cls c)
  then obtain x where "s = [x] @ t" "in_cls c x" "cs' = cs"
    by (auto split: list.splits if_splits)
  then have "s = [x] @ t \<and> cs' = cs @ [] \<and> length ([]::string list) = ngroups (Cls c)
      \<and> set [x] \<subseteq> alphabet (Cls c)" by simp
  then show ?case by blast
next
  case (Star c)
  then have "t \<in> set (star_res (in_cls c) s)" "cs' = cs" by auto
  then obtain w where "s = w @ t" "list_all (in_cls c) w" using star_res_suffix by blast
  with \<open>cs' = cs\<close> have "s = w @ t \<and> cs' = cs @ [] \<and> length ([]::string list) = ngroups (Star c)
      \<and> set w \<subseteq> alphabet (Star c)" by (auto simp: list_all_iff)
  then show ?case by blast
next
  case (Plus c)
  then obtain x xs where s: "s = x # xs" "in_cls c x" and "t \<in> set (star_res (in_cls c) xs)" and "cs' = cs"
    by (auto split: list.splits if_splits)
  then obtain w where "xs = w @ t" "list_all (in_cls c) w" using star_res_suffix by blast
  with s \<open>cs' = cs\<close> have "s = (x # w) @ t \<and> cs' = cs @ [] \<and> length ([]::string list) = ngroups (Plus c)
      \<and> set (x # w) \<subseteq> alphabet (Plus c)"
    by (auto simp: list_all_iff)
  then show ?case by blast
next
  case (Rep n c)
  then have "t = drop n s" "cs' = cs" "list_all (in_cls c) (take n s)" by (auto split: if_splits)
  then have "s = take n s @ t \<and> cs' = cs @ [] \<and> length ([]::string list) = ngroups (Rep n c)
      \<and> set (take n s) \<subseteq> alphabet (Rep n c)" by (auto simp: list_all_iff)
  then show ?case by blast
next
  case (Seq a b)
  then obtain u cu where 1: "(u, cu) \<in> set (rx_match a (s, cs))"
    and 2: "(t, cs') \<in> set (rx_match b (u, cu))" by auto
  from Seq.IH(1)[OF 1] obtain w1 n1 where a: "s = w1 @ u" "cu = cs @ n1" "length n1 = ngroups a"
    "set w1 \<subseteq> alphabet a" by blast
  from Seq.IH(2)[OF 2] obtain w2 n2 where b: "u = w2 @ t" "cs' = cu @ n2" "length n2 = ngroups b"
    "set w2 \<subseteq> alphabet b" by blast
  from a b have "s = (w1 @ w2) @ t \<and> cs' = cs @ (n1 @ n2) \<and> length (n1 @ n2) = ngroups (Seq a b)
      \<and> set (w1 @ w2) \<subseteq> alphabet (Seq a b)"
    by auto
  then show ?case by blast
next
  case (Grp a)
  then obtain cu where 1: "(t, cu) \<in> set (rx_match a (s, cs))"
    and c: "cs' = cu @ [take (length s - length t) s]" by auto
  from Grp.IH[OF 1] obtain w n1 where a: "s = w @ t" "cu = cs @ n1" "length n1 = ngroups a"
    "set w \<subseteq> alphabet a" by blast
  with c have "s = w @ t \<and> cs' = cs @ (n1 @ [take (length s - length t) s])
      \<and> length (n1 @ [take (length s - length t) s]) = ngroups (Grp a) \<and> set w \<subseteq> alphabet (Grp a)"
    by simp
  then show ?case by blast
qed

lemma rx_exec_ngroups:
  "rx_exec r pre s = Some (b, t, caps) \<Longrightarrow> length caps = ngroups r"
proof (induction s arbitrary: pre)
  case Nil
  then obtain rest where "rx_match r ([], []) = (t, caps) # rest"
    by (auto split: list.splits)
  then have "(t, caps) \<in> set (rx_match r ([], []))" by simp
  from rx_match_shape[OF this] show ?case by auto
next
  case (Cons x xs)
  show ?case
  proof (cases "rx_match r (x # xs, [])")
    case Nil
    with Cons show ?thesis by simp
  next
    case (Cons st rest)
    with Cons.prems have "st = (t, caps)" by (auto split: prod.splits)
    with Cons have "(t, caps) \<in> set (rx_match r (x # xs, []))" by simp
    from rx_match_shape[OF this] show ?thesis by auto
  qed
qed

lemma ngroups_parse_rx: "ngroups (parse_rx role) = 1"
  by (simp add: parse_rx_def list_rx_def head_rx_def guard_rx_def return_rx_def)

lemma js_match_parse_rx:
  "js_match (parse_rx role) content = None \<or> (\<exists>u. js_match (parse_rx role) content = Some [u])"
proof (cases "rx_exec (parse_rx role) [] content")
  case None
  then show ?thesis by (simp add: js_match_def)
next
  case (Some res)
  obtain b t caps where res: "res = (b, t, caps)" by (cases res) auto
  with Some have "length caps = 1" using rx_exec_ngroups ngroups_parse_rx by metis
  then obtain u where "caps = [u]" by (cases caps) auto
  with Some res show ?thesis by (simp add: js_match_def)
qed

lemma role_uids_None: "js_match (parse_rx role) content = None \<Longrightarrow> role_uids role content = []"
  by (simp add: role_uids_def)

lemma role_uids_Some:
  "js_match (parse_rx role) content = Some (u # us) \<Longrightarrow> role_uids role content = extract_uids u"
  by (simp add: role_uids_def)

lemma parse_roles_eq:
  "parse_roles roles content w =
     Inr (\<lambda>r. if r \<in> set roles then Some (role_uids r content) else w r)"
proof (induction roles arbitrary: w)
  case Nil
  then show ?case by simp
next
  case (Cons role roles)
  from js_match_parse_rx[of role content] show ?case
  proof
    assume n: "js_match (parse_rx role) content = None"
    have "parse_roles (role # roles) content w = parse_roles roles content (w(role \<mapsto> []))"
      using n by simp
    also have "\<dots> = Inr (\<lambda>r. if r \<in> set roles then Some (role_uids r content) else (w(role \<mapsto> [])) r)"
      by (rule Cons.IH)
    also have "(\<lambda>r. if r \<in> set roles then Some (role_uids r content) else (w(role \<mapsto> [])) r)
        = (\<lambda>r. if r \<in> set (role # roles) then Some (role_uids r content) else w r)"
      using role_uids_None[OF n] by auto
    finally show ?thesis .
  next
    assume "\<exists>u. js_match (parse_rx role) content = Some [u]"
    then obtain u where s: "js_match (parse_rx role) content = Some [u]" by blast
    have "parse_roles (role # roles) content w = parse_roles roles content (w(role \<mapsto> extract_uids u))"
      using s by simp
    also have "\<dots> = Inr (\<lambda>r. if r \<in> set roles then Some (role_uids r content) else (w(role \<mapsto> extract_uids u)) r)"
      by (rule Cons.IH)
    also have "(\<lambda>r. if r \<in> set roles then Some (role_uids r content) else (w(role \<mapsto> extract_uids u)) r)
        = (\<lambda>r. if r \<in> set (role # roles) then Some (role_uids r content) else w r)"
      using role_uids_Some[OF s] by auto
    finally show ?thesis .
  qed
qed

lemma parseContent_eq:
  "parseContent content =
     Inr (\<lambda>r. if r \<in> set validRoles then Some (role_uids r content) else None)"
  by (simp add: parseContent_def parse_roles_eq)

lemma getUids_eq:
  "getUids role (Some content) =
     Inr (if toUpperCase role \<in> set validRoles then role_uids (toUpperCase role) content else [])"
  by (simp add: getUids_def readFile_def parseContent_eq)

lemma star_res_all: "list_all p s \<Longrightarrow> [] \<in> set (star_res p s)"
  by (induction s) auto

lemma rx_full_Plus: "rx_full (Plus c) s \<longleftrightarrow> s \<noteq> [] \<and> list_all (in_cls c) s"
proof (cases s)
  case Nil
  then show ?thesis by (simp add: rx_full_def)
next
  case (Cons x xs)
  show ?thesis
  proof (cases "in_cls c x")
    case False
    with Cons show ?thesis by (simp add: rx_full_def)
  next
    case True
    have "[] \<in> set (star_res (in_cls c) xs) \<longleftrightarrow> list_all (in_cls c) xs"
    proof
      assume "[] \<in> set (star_res (in_cls c) xs)"
      from star_res_suffix[OF this] show "list_all (in_cls c) xs" by simp
    qed (rule star_res_all)
    with Cons True show ?thesis
      by (auto simp: rx_full_def list_ex_iff)
  qed
qed

lemma rx_full_Rep: "rx_full (Rep n c) s \<longleftrightarrow> length s = n \<and> list_all (in_cls c) s"
  by (auto simp: rx_full_def)

lemma in_cls_Digit: "in_cls Digit = is_digit"
  by (rule ext) simp

lemma uid_format: "rx_full (Rep 17 Digit) uid \<longleftrightarrow> steam_uid uid"
  by (auto simp: rx_full_Rep steam_uid_def in_cls_Digit)

lemma validRoles_upper: "code \<in> set validRoles \<Longrightarrow> toUpperCase code = code"
proof -
  have "\<forall>code \<in> set validRoles. toUpperCase code = code" by code_simp
  then show "code \<in> set validRoles \<Longrightarrow> toUpperCase code = code" by blast
qed

subsection \<open>Greedy runs followed by something that cannot start inside the run\<close>

lemma star_res_concat:
  "(\<And>x xs. p x \<Longrightarrow> F (x # xs) = []) \<Longrightarrow> concat (map F (star_res p s)) = F (dropWhile p s)"
  by (induction s) auto

lemma rx_Star_rejects:
  assumes "rejects (in_cls c) r"
  shows "rx_match (Seq (Star c) r) (s, cs) = rx_match r (dropWhile (in_cls c) s, cs)"
proof -
  have "rx_match (Seq (Star c) r) (s, cs)
      = concat (map (\<lambda>t. rx_match r (t, cs)) (star_res (in_cls c) s))"
    by (simp add: comp_def)
  also have "\<dots> = rx_match r (dropWhile (in_cls c) s, cs)"
    using assms by (intro star_res_concat) (simp add: rejects_def)
  finally show ?thesis .
qed

lemma rx_Plus_rejects:
  assumes "rejects (in_cls c) r"
  shows "rx_match (Seq (Plus c) r) (s, cs) =
     (case s of [] \<Rightarrow> []
      | x # xs \<Rightarrow> if in_cls c x then rx_match r (dropWhile (in_cls c) xs, cs) else [])"
proof (cases s)
  case Nil
  then show ?thesis by simp
next
  case (Cons x xs)
  show ?thesis
  proof (cases "in_cls c x")
    case False
    with Cons show ?thesis by simp
  next
    case True
    have "rx_match (Seq (Plus c) r) (s, cs)
        = concat (map (\<lambda>t. rx_match r (t, cs)) (star_res (in_cls c) xs))"
      using Cons True by (simp add: comp_def)
    also have "\<dots> = rx_match r (dropWhile (in_cls c) xs, cs)"
      using assms by (intro star_res_concat) (simp add: rejects_def)
    finally show ?thesis using Cons True by simp
  qed
qed

lemma rejects_Lit: "l \<noteq> [] \<Longrightarrow> \<not> p (hd l) \<Longrightarrow> rejects p (Lit l)"
  by (cases l) (auto simp: rejects_def)

lemma rejects_Cls: "(\<And>x. p x \<Longrightarrow> \<not> in_cls q x) \<Longrightarrow> rejects p (Cls q)"
  by (auto simp: rejects_def)

lemma rejects_Seq: "rejects p a \<Longrightarrow> rejects p (Seq a b)"
  by (auto simp: rejects_def)

lemma rejects_Grp: "rejects p a \<Longrightarrow> rejects p (Grp a)"
  by (auto simp: rejects_def)

subsection \<open>Patterns with one way to match\<close>

lemma framesD: "frames r g \<Longrightarrow> rx_match r (g @ t, cs) = [(t, cs)]"
  by (simp add: frames_def)

lemma frames_Lit: "frames (Lit l) l"
  by (simp add: frames_def)

lemma det_Lit: "det (Lit l)"
proof -
  have "rx_match (Lit l) (s, cs) = [] \<or>
        (\<exists>g t. s = g @ t \<and> frames (Lit l) g \<and> rx_match (Lit l) (s, cs) = [(t, cs)])" for s cs
  proof (cases "take (length l) s = l")
    case False
    then show ?thesis by simp
  next
    case True
    then have "s = l @ drop (length l) s" by (metis append_take_drop_id)
    with True frames_Lit show ?thesis by (metis rx_match.simps(1))
  qed
  then show ?thesis by (simp add: det_def)
qed

lemma frames_Cls: "in_cls q x \<Longrightarrow> frames (Cls q) [x]"
  by (simp add: frames_def)

lemma det_Cls: "det (Cls q)"
proof -
  have "rx_match (Cls q) (s, cs) = [] \<or>
        (\<exists>g t. s = g @ t \<and> frames (Cls q) g \<and> rx_match (Cls q) (s, cs) = [(t, cs)])" for s cs
  proof (cases s)
    case Nil
    then show ?thesis by simp
  next
    case (Cons x xs)
    show ?thesis
    proof (cases "in_cls q x")
      case True
      with Cons have "s = [x] @ xs \<and> frames (Cls q) [x] \<and> rx_match (Cls q) (s, cs) = [(xs, cs)]"
        by (simp add: frames_Cls)
      then show ?thesis by blast
    next
      case False
      with Cons show ?thesis by simp
    qed
  qed
  then show ?thesis by (simp add: det_def)
qed

lemma frames_Seq:
  assumes "frames a g" "frames b h"
  shows "frames (Seq a b) (g @ h)"
  using assms by (simp add: frames_def)

lemma det_Seq:
  assumes "det a" "det b"
  shows "det (Seq a b)"
proof -
  have "rx_match (Seq a b) (s, cs) = [] \<or>
        (\<exists>g t. s = g @ t \<and> frames (Seq a b) g \<and> rx_match (Seq a b) (s, cs) = [(t, cs)])" for s cs
  proof (cases "rx_match a (s, cs) = []")
    case True
    then show ?thesis by simp
  next
    case False
    with assms(1) obtain g t where a: "s = g @ t" "frames a g" "rx_match a (s, cs) = [(t, cs)]"
      unfolding det_def by blast
    show ?thesis
    proof (cases "rx_match b (t, cs) = []")
      case True
      with a show ?thesis by simp
    next
      case False
      with assms(2) obtain h u where b: "t = h @ u" "frames b h" "rx_match b (t, cs) = [(u, cs)]"
        unfolding det_def by blast
      from a b have "s = (g @ h) @ u \<and> frames (Seq a b) (g @ h) \<and> rx_match (Seq a b) (s, cs) = [(u, cs)]"
        by (simp add: frames_Seq)
      then show ?thesis by blast
    qed
  qed
  then show ?thesis by (simp add: det_def)
qed

lemma dropWhile_run:
  "list_all p ws \<Longrightarrow> rest = [] \<or> \<not> p (hd rest) \<Longrightarrow> dropWhile p (ws @ rest) = rest"
proof (induction ws)
  case Nil
  then show ?case by (cases rest) auto
next
  case (Cons w ws)
  then show ?case by simp
qed

lemma frames_not_rejected:
  assumes "frames r g" "rejects p r"
  shows "g @ t = [] \<or> \<not> p (hd (g @ t))"
proof (cases "g @ t")
  case Nil
  then show ?thesis by simp
next
  case (Cons x xs)
  from assms(1) have "rx_match r (g @ t, []) = [(t, [])]" by (rule framesD)
  with Cons assms(2) have "\<not> p x" unfolding rejects_def by fastforce
  with Cons show ?thesis by simp
qed

lemma frames_Star:
  assumes "frames r g" "rejects (in_cls c) r" "list_all (in_cls c) ws"
  shows "frames (Seq (Star c) r) (ws @ g)"
proof -
  have "rx_match (Seq (Star c) r) ((ws @ g) @ t, cs) = [(t, cs)]" for t cs
  proof -
    have "dropWhile (in_cls c) (ws @ (g @ t)) = g @ t"
      using assms(3) frames_not_rejected[OF assms(1,2)] by (intro dropWhile_run) auto
    then show ?thesis
      unfolding rx_Star_rejects[OF assms(2)] using assms(1) by (simp add: framesD)
  qed
  then show ?thesis by (simp add: frames_def)
qed

lemma det_Star:
  assumes "det r" "rejects (in_cls c) r"
  shows "det (Seq (Star c) r)"
proof -
  have "rx_match (Seq (Star c) r) (s, cs) = [] \<or>
        (\<exists>g t. s = g @ t \<and> frames (Seq (Star c) r) g \<and> rx_match (Seq (Star c) r) (s, cs) = [(t, cs)])"
    for s cs
  proof (cases "rx_match r (dropWhile (in_cls c) s, cs) = []")
    case True
    then show ?thesis unfolding rx_Star_rejects[OF assms(2)] by simp
  next
    case False
    with assms(1) obtain g t where g: "dropWhile (in_cls c) s = g @ t" "frames r g"
      "rx_match r (dropWhile (in_cls c) s, cs) = [(t, cs)]"
      unfolding det_def by blast
    let ?ws = "takeWhile (in_cls c) s"
    have "list_all (in_cls c) ?ws" by (simp add: list_all_iff) (meson set_takeWhileD)
    then have "frames (Seq (Star c) r) (?ws @ g)" using frames_Star[OF g(2) assms(2)] by blast
    moreover have "s = (?ws @ g) @ t" using g(1) by (metis append.assoc takeWhile_dropWhile_id)
    moreover have "rx_match (Seq (Star c) r) (s, cs) = [(t, cs)]"
      unfolding rx_Star_rejects[OF assms(2)] using g(3) by simp
    ultimately show ?thesis by blast
  qed
  then show ?thesis by (simp add: det_def)
qed

lemma frames_Plus:
  assumes "frames r g" "rejects (in_cls c) r" "in_cls c x" "list_all (in_cls c) ws"
  shows "frames (Seq (Plus c) r) (x # ws @ g)"
proof -
  have "rx_match (Seq (Plus c) r) ((x # ws @ g) @ t, cs) = [(t, cs)]" for t cs
  proof -
    have "dropWhile (in_cls c) (ws @ (g @ t)) = g @ t"
      using assms(4) frames_not_rejected[OF assms(1,2)] by (intro dropWhile_run) auto
    then show ?thesis
      unfolding rx_Plus_rejects[OF assms(2)] using assms(1,3) by (simp add: framesD)
  qed
  then show ?thesis by (simp add: frames_def)
qed

lemma det_Plus:
  assumes "det r" "rejects (in_cls c) r"
  shows "det (Seq (Plus c) r)"
proof -
  have "rx_match (Seq (Plus c) r) (s, cs) = [] \<or>
        (\<exists>g t. s = g @ t \<and> frames (Seq (Plus c) r) g \<and> rx_match (Seq (Plus c) r) (s, cs) = [(t, cs)])"
    for s cs
  proof (cases s)
    case Nil
    then show ?thesis unfolding rx_Plus_rejects[OF assms(2)] by simp
  next
    case (Cons x xs)
    show ?thesis
    proof (cases "in_cls c x \<and> rx_match r (dropWhile (in_cls c) xs, cs) \<noteq> []")
      case False
      with Cons show ?thesis unfolding rx_Plus_rejects[OF assms(2)] by auto
    next
      case True
      with assms(1) obtain g t where g: "dropWhile (in_cls c) xs = g @ t" "frames r g"
        "rx_match r (dropWhile (in_cls c) xs, cs) = [(t, cs)]"
        unfolding det_def by blast
      let ?ws = "takeWhile (in_cls c) xs"
      have "list_all (in_cls c) ?ws" by (simp add: list_all_iff) (meson set_takeWhileD)
      then have "frames (Seq (Plus c) r) (x # ?ws @ g)"
        using frames_Plus[OF g(2) assms(2)] True by blast
      moreover have "s = (x # ?ws @ g) @ t"
        using g(1) Cons by (metis append.assoc append_Cons takeWhile_dropWhile_id)
      moreover have "rx_match (Seq (Plus c) r) (s, cs) = [(t, cs)]"
        unfolding rx_Plus_rejects[OF assms(2)] using g(3) True Cons by simp
      ultimately show ?thesis by blast
    qed
  qed
  then show ?thesis by (simp add: det_def)
qed

lemma det_cases:
  assumes "det r"
  obtains (fail) "\<And>cs. rx_match r (s, cs) = []"
    | (match) g t where "s = g @ t" "frames r g" "\<And>cs. rx_match r (s, cs) = [(t, cs)]"
proof (cases "rx_match r (s, []) = []")
  case True
  have "rx_match r (s, cs) = []" for cs
  proof (rule ccontr)
    assume "rx_match r (s, cs) \<noteq> []"
    with assms obtain g t where "s = g @ t" "frames r g" unfolding det_def by blast
    then have "rx_match r (s, []) = [(t, [])]" by (simp add: framesD)
    with True show False by simp
  qed
  then show ?thesis by (rule fail)
next
  case False
  with assms obtain g t where g: "s = g @ t" "frames r g" unfolding det_def by blast
  then have "rx_match r (s, cs) = [(t, cs)]" for cs by (simp add: framesD)
  with g show ?thesis by (rule match)
qed

lemma frames_unique:
  assumes "frames r g" "frames r g'" "g @ t = g' @ t'"
  shows "g = g' \<and> t = t'"
proof -
  from assms(1) have "rx_match r (g @ t, []) = [(t, [])]" by (rule framesD)
  moreover from assms(2) have "rx_match r (g' @ t', []) = [(t', [])]" by (rule framesD)
  ultimately have "t = t'" using assms(3) by simp
  with assms(3) show ?thesis by simp
qed

subsection \<open>The guard and the assignment head\<close>

lemma not_space [simp]:
  "\<not> is_space CHR ''(''" "\<not> is_space CHR '')''" "\<not> is_space CHR ''_''" "\<not> is_space CHR ''i''"
  "\<not> is_space CHR ''t''" "\<not> is_space CHR ''{''" "\<not> is_space CHR ''=''" "\<not> is_space CHR ''[''"
  "\<not> is_space SQ" "\<not> is_space DQ"
  by (simp_all add: is_space_def)

lemma det_guard_rx: "det (guard_rx role)"
  unfolding guard_rx_def seqs.simps
  by (intro det_Seq det_Lit det_Cls det_Star det_Plus rejects_Seq rejects_Lit rejects_Cls) auto

lemma det_return_rx: "det return_rx"
  unfolding return_rx_def seqs.simps
  by (intro det_Seq det_Lit det_Cls det_Star det_Plus rejects_Seq rejects_Lit rejects_Cls) auto

subsection \<open>The first result after a greedy run\<close>

lemma star_res_member: "s = a @ u \<Longrightarrow> list_all p a \<Longrightarrow> u \<in> set (star_res p s)"
proof (induction a arbitrary: s)
  case Nil
  then show ?case by (cases s) auto
next
  case (Cons x a)
  then show ?case by auto
qed

lemma star_first:
  assumes "concat (map F (star_res p t)) = x # rest"
  shows "\<exists>a u r. t = a @ u \<and> list_all p a \<and> F u = x # r \<and>
           (\<forall>a' u'. t = a' @ u' \<and> list_all p a' \<and> length a < length a' \<longrightarrow> F u' = [])"
  using assms
proof (induction t arbitrary: rest)
  case Nil
  then have f: "F [] = x # rest" by simp
  show ?case
  proof (intro exI conjI)
    show "[] = [] @ ([]::string)" by simp
    show "list_all p []" by simp
    show "F [] = x # rest" by (rule f)
    show "\<forall>a' u'. [] = a' @ u' \<and> list_all p a' \<and> length ([]::string) < length a' \<longrightarrow> F u' = []"
      by simp
  qed
next
  case (Cons y ys)
  show ?case
  proof (cases "p y \<and> concat (map F (star_res p ys)) \<noteq> []")
    case True
    then have py: "p y" by simp
    then have e: "concat (map F (star_res p (y # ys))) = concat (map F (star_res p ys)) @ F (y # ys)"
      by simp
    from True obtain x' rest' where r': "concat (map F (star_res p ys)) = x' # rest'"
      by (cases "concat (map F (star_res p ys))") simp_all
    with e Cons.prems have "x' = x" by simp
    with r' have r: "concat (map F (star_res p ys)) = x # rest'" by simp
    from Cons.IH[OF r] obtain a u r' where
      a: "ys = a @ u" "list_all p a" "F u = x # r'"
      and mx: "\<And>a' u'. ys = a' @ u' \<Longrightarrow> list_all p a' \<Longrightarrow> length a < length a' \<Longrightarrow> F u' = []"
      by blast
    have "F u' = []" if h: "y # ys = a' @ u'" "list_all p a'" "length (y # a) < length a'" for a' u'
    proof -
      from h(3) obtain z a'' where a': "a' = z # a''" by (cases a') simp_all
      from h(1) a' have "ys = a'' @ u'" by simp
      moreover from h(2) a' have "list_all p a''" by simp
      moreover from h(3) a' have "length a < length a''" by simp
      ultimately show ?thesis by (rule mx)
    qed
    then have mx': "\<forall>a' u'. y # ys = a' @ u' \<and> list_all p a' \<and> length (y # a) < length a' \<longrightarrow> F u' = []"
      by blast
    show ?thesis
    proof (intro exI conjI)
      show "y # ys = (y # a) @ u" using a(1) by simp
      show "list_all p (y # a)" using a(2) py by simp
      show "F u = x # r'" by (rule a(3))
      show "\<forall>a' u'. y # ys = a' @ u' \<and> list_all p a' \<and> length (y # a) < length a' \<longrightarrow> F u' = []"
        by (rule mx')
    qed
  next
    case False
    have f: "F (y # ys) = x # rest"
    proof (cases "p y")
      case True
      with False have "concat (map F (star_res p ys)) = []" by simp
      with True Cons.prems show ?thesis by simp
    next
      case False
      with Cons.prems show ?thesis by simp
    qed
    have "F u' = []" if h: "y # ys = a' @ u'" "list_all p a'" "length ([]::string) < length a'" for a' u'
    proof -
      from h(3) obtain z a'' where a': "a' = z # a''" by (cases a') simp_all
      from h(1) a' have 1: "ys = a'' @ u'" and zy: "z = y" by simp_all
      from h(2) a' zy have py: "p y" and 2: "list_all p a''" by simp_all
      from 1 2 have m: "u' \<in> set (star_res p ys)" by (rule star_res_member)
      from py False have "concat (map F (star_res p ys)) = []" by simp
      then have "\<forall>l \<in> set (map F (star_res p ys)). l = []" by simp
      with m show ?thesis by simp
    qed
    then have mx': "\<forall>a' u'. y # ys = a' @ u' \<and> list_all p a' \<and> length ([]::string) < length a' \<longrightarrow> F u' = []"
      by blast
    show ?thesis
    proof (intro exI conjI)
      show "y # ys = [] @ (y # ys)" by simp
      show "list_all p ([]::string)" by simp
      show "F (y # ys) = x # rest" by (rule f)
      show "\<forall>a' u'. y # ys = a' @ u' \<and> list_all p a' \<and> length ([]::string) < length a' \<longrightarrow> F u' = []"
        by (rule mx')
    qed
  qed
qed

lemma star_some:
  assumes "t = a @ u" "list_all p a" "F u \<noteq> []"
  shows "concat (map F (star_res p t)) \<noteq> []"
  using star_res_member[OF assms(1,2)] assms(3) by auto

lemma concat_map_concat_map:
  "concat (map f (concat (map g xs))) = concat (map (\<lambda>x. concat (map f (g x))) xs)"
  by (induction xs) auto

subsection \<open>The closing bracket\<close>

lemma take_until:
  assumes "z \<notin> set c"
  shows "takeWhile (\<lambda>x. x \<noteq> z) (c @ z # w) = c"
proof -
  from assms have "\<And>x. x \<in> set c \<Longrightarrow> x \<noteq> z" by blast
  then have "takeWhile (\<lambda>x. x \<noteq> z) (c @ z # w) = c @ takeWhile (\<lambda>x. x \<noteq> z) (z # w)"
    by (rule takeWhile_append2)
  then show ?thesis by simp
qed

lemma drop_until:
  assumes "z \<notin> set c"
  shows "dropWhile (\<lambda>x. x \<noteq> z) (c @ z # w) = z # w"
proof -
  from assms have "\<And>x. x \<in> set c \<Longrightarrow> x \<noteq> z" by blast
  then have "dropWhile (\<lambda>x. x \<noteq> z) (c @ z # w) = dropWhile (\<lambda>x. x \<noteq> z) (z # w)"
    by (rule dropWhile_append2)
  then show ?thesis by simp
qed

lemma close_bracket_iff:
  "close_bracket v = Some (c, w) \<longleftrightarrow> v = c @ CHR '']'' # w \<and> CHR '']'' \<notin> set c"
proof
  assume "close_bracket v = Some (c, w)"
  then obtain z where d: "dropWhile (\<lambda>x. x \<noteq> CHR '']'') v = z # w"
    and c: "c = takeWhile (\<lambda>x. x \<noteq> CHR '']'') v"
    by (auto simp: close_bracket_def split: list.splits)
  from d have "dropWhile (\<lambda>x. x \<noteq> CHR '']'') v \<noteq> []" by simp
  then have "\<not> hd (dropWhile (\<lambda>x. x \<noteq> CHR '']'') v) \<noteq> CHR '']''" by (rule hd_dropWhile)
  with d have "z = CHR '']''" by simp
  with c d have "v = c @ CHR '']'' # w" using takeWhile_dropWhile_id[of "\<lambda>x. x \<noteq> CHR '']''" v] by simp
  moreover from c have "CHR '']'' \<notin> set c" by (auto dest: set_takeWhileD)
  ultimately show "v = c @ CHR '']'' # w \<and> CHR '']'' \<notin> set c" by simp
next
  assume a: "v = c @ CHR '']'' # w \<and> CHR '']'' \<notin> set c"
  then show "close_bracket v = Some (c, w)"
    by (simp add: close_bracket_def take_until drop_until)
qed

lemma close_bracket_None: "close_bracket v = None \<Longrightarrow> dropWhile (\<lambda>x. x \<noteq> CHR '']'') v = []"
  by (simp add: close_bracket_def split: list.splits)

lemma in_cls_None_of1: "in_cls (None_of [z]) = (\<lambda>x. x \<noteq> z)"
  by (rule ext) auto

lemma tail_update_aux:
  "rx_match (Seq (Star (None_of '']'')) (Grp (Lit '']''))) (v, cs) =
     (case close_bracket v of None \<Rightarrow> [] | Some (c, w) \<Rightarrow> [(w, cs @ ['']''])])"
proof -
  have r: "rejects (in_cls (None_of '']'')) (Grp (Lit '']''))"
    by (intro rejects_Grp rejects_Lit) auto
  show ?thesis
  proof (cases "close_bracket v")
    case None
    show ?thesis
      unfolding rx_Star_rejects[OF r] in_cls_None_of1 close_bracket_None[OF None]
      using None by simp
  next
    case (Some cw)
    obtain c w where cw: "cw = (c, w)" by (cases cw) auto
    with Some have d: "dropWhile (\<lambda>x. x \<noteq> CHR '']'') v = CHR '']'' # w"
      by (simp add: close_bracket_iff drop_until)
    show ?thesis
      unfolding rx_Star_rejects[OF r] in_cls_None_of1 d
      using Some cw by simp
  qed
qed

lemma tail_update:
  "rx_match close_rx (v, cs) =
     (case close_bracket v of None \<Rightarrow> [] | Some (c, w) \<Rightarrow> [(w, cs @ ['']''])])"
  unfolding close_rx_def by (rule tail_update_aux)

lemma tail_parse_aux:
  "rx_match (Seq (Grp (Plus (None_of '']''))) (Lit '']'')) (v, cs) =
     (case close_bracket v of
        None \<Rightarrow> []
      | Some (c, w) \<Rightarrow> if c = [] then [] else [(w, cs @ [c])])"
proof (cases v)
  case Nil
  then show ?thesis by (simp add: close_bracket_def)
next
  case (Cons x xs)
  show ?thesis
  proof (cases "x = CHR '']''")
    case True
    with Cons have "close_bracket v = Some ([], xs)" by (simp add: close_bracket_def)
    with Cons True show ?thesis by simp
  next
    case False
    let ?F = "\<lambda>t. rx_match (Lit '']'') (t, cs @ [take (length v - length t) v])"
    have "rx_match (Seq (Grp (Plus (None_of '']''))) (Lit '']'')) (v, cs)
        = concat (map ?F (star_res (\<lambda>x. x \<noteq> CHR '']'') xs))"
      using Cons False by (simp add: comp_def in_cls_None_of1)
    also have "\<dots> = ?F (dropWhile (\<lambda>x. x \<noteq> CHR '']'') xs)"
      by (intro star_res_concat) simp
    finally have m: "rx_match (Seq (Grp (Plus (None_of '']''))) (Lit '']'')) (v, cs)
        = ?F (dropWhile (\<lambda>x. x \<noteq> CHR '']'') xs)" .
    show ?thesis
    proof (cases "close_bracket v")
      case None
      have d: "dropWhile (\<lambda>x. x \<noteq> CHR '']'') xs = []"
        using Cons False close_bracket_None[OF None] by simp
      show ?thesis unfolding m d using None by simp
    next
      case (Some cw)
      obtain c w where cw: "cw = (c, w)" by (cases cw) auto
      with Some have v: "v = c @ CHR '']'' # w" "CHR '']'' \<notin> set c" by (simp_all add: close_bracket_iff)
      with Cons False obtain c' where c': "c = x # c'" by (cases c) auto
      with v Cons have xs: "xs = c' @ CHR '']'' # w" "CHR '']'' \<notin> set c'" by auto
      then have d: "dropWhile (\<lambda>x. x \<noteq> CHR '']'') xs = CHR '']'' # w"
        by (simp add: drop_until)
      show ?thesis unfolding m d using v c' Some cw Cons by simp
    qed
  qed
qed

lemma tail_parse:
  "rx_match list_rx (v, cs) =
     (case close_bracket v of
        None \<Rightarrow> []
      | Some (c, w) \<Rightarrow> if c = [] then [] else [(w, cs @ [c])])"
  unfolding list_rx_def by (rule tail_parse_aux)

subsection \<open>The candidates of a block pattern\<close>

lemma head_candidates:
  assumes "rx_match (guard_rx role) (s, cs) = [(t, cs)]"
  shows "rx_match (head_rx role) (s, cs) =
     concat (map (\<lambda>u. rx_match return_rx (u, cs)) (star_res (\<lambda>x. x \<noteq> CHR ''}'') t))"
  using assms by (simp add: head_rx_def comp_def in_cls_None_of1)

lemma head_fail:
  assumes "rx_match (guard_rx role) (s, cs) = []"
  shows "rx_match (head_rx role) (s, cs) = []"
  using assms by (simp add: head_rx_def)

lemma update_candidates:
  assumes "rx_match (guard_rx role) (s, []) = [(t, [])]"
  shows "rx_match (update_rx role) (s, []) =
     concat (map (\<lambda>u. concat (map (\<lambda>(v, cs). rx_match close_rx
                                       (v, cs @ [take (length s - length v) s]))
                                   (rx_match return_rx (u, []))))
               (star_res (\<lambda>x. x \<noteq> CHR ''}'') t))"
proof -
  let ?T = "close_rx"
  let ?cap = "\<lambda>(v, cs). (v, cs @ [take (length s - length v) s])"
  have "rx_match (update_rx role) (s, []) = concat (map (rx_match ?T) (map ?cap (rx_match (head_rx role) (s, []))))"
    unfolding update_rx_def by (simp only: rx_match.simps)
  also have "\<dots> = concat (map (rx_match ?T \<circ> ?cap)
      (concat (map (\<lambda>u. rx_match return_rx (u, [])) (star_res (\<lambda>x. x \<noteq> CHR ''}'') t))))"
    unfolding head_candidates[OF assms] by (simp only: map_map)
  also have "\<dots> = concat (map (\<lambda>u. concat (map (rx_match ?T \<circ> ?cap) (rx_match return_rx (u, []))))
      (star_res (\<lambda>x. x \<noteq> CHR ''}'') t))"
    by (rule concat_map_concat_map)
  also have "(rx_match ?T \<circ> ?cap) = (\<lambda>(v, cs). rx_match ?T (v, cs @ [take (length s - length v) s]))"
    by (rule ext) (simp add: comp_def split: prod.splits)
  finally show ?thesis .
qed

lemma parse_candidates:
  assumes "rx_match (guard_rx role) (s, []) = [(t, [])]"
  shows "rx_match (parse_rx role) (s, []) =
     concat (map (\<lambda>u. concat (map (rx_match list_rx) (rx_match return_rx (u, []))))
               (star_res (\<lambda>x. x \<noteq> CHR ''}'') t))"
proof -
  let ?T = "list_rx"
  have "rx_match (parse_rx role) (s, []) = concat (map (rx_match ?T) (rx_match (head_rx role) (s, [])))"
    unfolding parse_rx_def by (simp only: rx_match.simps)
  also have "\<dots> = concat (map (rx_match ?T)
      (concat (map (\<lambda>u. rx_match return_rx (u, [])) (star_res (\<lambda>x. x \<noteq> CHR ''}'') t))))"
    unfolding head_candidates[OF assms] ..
  also have "\<dots> = concat (map (\<lambda>u. concat (map (rx_match ?T) (rx_match return_rx (u, []))))
      (star_res (\<lambda>x. x \<noteq> CHR ''}'') t))"
    by (rule concat_map_concat_map)
  finally show ?thesis .
qed

lemma no_brace: "list_all (\<lambda>x. x \<noteq> CHR ''}'') a \<longleftrightarrow> CHR ''}'' \<notin> set a"
  by (auto simp: list_all_iff)

text \<open>The first candidate, for any continuation \<open>T\<close> that closes the bracket.\<close>

lemma block_first:
  assumes s: "s = g @ t" and g: "frames (guard_rx role) g"
    and X: "concat (map (\<lambda>u. concat (map T (rx_match return_rx (u, []))))
              (star_res (\<lambda>x. x \<noteq> CHR ''}'') t)) = (w, caps) # rest"
    and T: "\<And>v. T (v, []) =
              (case close_bracket v of None \<Rightarrow> []
               | Some (c, w) \<Rightarrow> if ok c then [(w, capsf v c)] else [])"
  shows "\<exists>a h c. blk role s g a h c w \<and> ok c \<and> caps = capsf (c @ '']'' @ w) c \<and>
           (\<forall>g' a' h' c' w'. blk role s g' a' h' c' w' \<and> ok c' \<longrightarrow> length a' \<le> length a)"
proof -
  let ?F = "\<lambda>u. concat (map T (rx_match return_rx (u, [])))"
  from star_first[of ?F _ t, OF X] obtain a u r where
    a: "t = a @ u" "list_all (\<lambda>x. x \<noteq> CHR ''}'') a" "?F u = (w, caps) # r"
    and mx: "\<And>a' u'. t = a' @ u' \<Longrightarrow> list_all (\<lambda>x. x \<noteq> CHR ''}'') a' \<Longrightarrow> length a < length a'
        \<Longrightarrow> ?F u' = []"
    by blast
  from a(3) have "rx_match return_rx (u, []) \<noteq> []" by auto
  with det_return_rx obtain h v where h: "u = h @ v" "frames return_rx h"
    and hv: "rx_match return_rx (u, []) = [(v, [])]"
    by (cases rule: det_cases[of return_rx u]) auto
  from a(3) hv have Tv: "T (v, []) = (w, caps) # r" by simp
  then obtain c where c: "close_bracket v = Some (c, w)" "ok c" "caps = capsf v c"
    unfolding T by (auto split: option.splits if_splits)
  from c(1) have v: "v = c @ CHR '']'' # w" "CHR '']'' \<notin> set c" by (simp_all add: close_bracket_iff)
  have b: "blk role s g a h c w"
    unfolding blk_def using s a(1) h(1) v g h(2) a(2) by (simp add: no_brace)
  have "length a' \<le> length a" if b': "blk role s g' a' h' c' w'" and ok: "ok c'" for g' a' h' c' w'
  proof (rule ccontr)
    assume "\<not> length a' \<le> length a"
    then have l: "length a < length a'" by simp
    from b' have s': "s = g' @ a' @ h' @ c' @ '']'' @ w'" and g': "frames (guard_rx role) g'"
      and a': "CHR ''}'' \<notin> set a'" and h': "frames return_rx h'" and c': "CHR '']'' \<notin> set c'"
      by (simp_all add: blk_def)
    from frames_unique[OF g g'] s s' have t: "t = a' @ (h' @ c' @ '']'' @ w')" by auto
    have "?F (h' @ c' @ '']'' @ w') = []"
      using mx[OF t _ l] a' by (simp add: no_brace)
    moreover have "rx_match return_rx (h' @ (c' @ '']'' @ w'), []) = [(c' @ '']'' @ w', [])]"
      using h' by (rule framesD)
    moreover have "close_bracket (c' @ '']'' @ w') = Some (c', w')"
      using c' by (simp add: close_bracket_iff)
    ultimately show False using ok by (simp add: T)
  qed
  then have mx': "\<forall>g' a' h' c' w'. blk role s g' a' h' c' w' \<and> ok c' \<longrightarrow> length a' \<le> length a"
    by blast
  show ?thesis
  proof (intro exI conjI)
    show "blk role s g a h c w" by (rule b)
    show "ok c" by (rule c(2))
    show "caps = capsf (c @ '']'' @ w) c" using c(3) v(1) by simp
    show "\<forall>g' a' h' c' w'. blk role s g' a' h' c' w' \<and> ok c' \<longrightarrow> length a' \<le> length a"
      by (rule mx')
  qed
qed

lemma block_some:
  assumes b: "blk role s g a h c w" and ok: "ok c"
    and T: "\<And>v. T (v, []) =
              (case close_bracket v of None \<Rightarrow> []
               | Some (c, w) \<Rightarrow> if ok c then [(w, capsf v c)] else [])"
  shows "concat (map (\<lambda>u. concat (map T (rx_match return_rx (u, []))))
              (star_res (\<lambda>x. x \<noteq> CHR ''}'') (a @ h @ c @ '']'' @ w))) \<noteq> []"
proof -
  from b have h: "frames return_rx h" and a: "CHR ''}'' \<notin> set a" and c: "CHR '']'' \<notin> set c"
    by (simp_all add: blk_def)
  let ?F = "\<lambda>u. concat (map T (rx_match return_rx (u, [])))"
  have "rx_match return_rx (h @ (c @ '']'' @ w), []) = [(c @ '']'' @ w, [])]"
    using h by (rule framesD)
  moreover have "close_bracket (c @ '']'' @ w) = Some (c, w)"
    using c by (simp add: close_bracket_iff)
  ultimately have fu: "?F (h @ c @ '']'' @ w) \<noteq> []" using ok by (simp add: T)
  have la: "list_all (\<lambda>x. x \<noteq> CHR ''}'') a" using a by (simp add: no_brace)
  show ?thesis
    by (rule star_some[where F = ?F and a = a and u = "h @ c @ '']'' @ w", OF refl la fu])
qed

lemma detD:
  assumes "det r" "rx_match r (s, cs) \<noteq> []"
  shows "\<exists>g t. s = g @ t \<and> frames r g \<and> rx_match r (s, cs) = [(t, cs)]"
  using assms unfolding det_def by blast

lemma guard_match:
  assumes "rx_match (head_rx role) (s, []) \<noteq> []"
  shows "\<exists>g t. s = g @ t \<and> frames (guard_rx role) g \<and> rx_match (guard_rx role) (s, []) = [(t, [])]"
proof -
  from assms have "rx_match (guard_rx role) (s, []) \<noteq> []" using head_fail by blast
  with det_guard_rx show ?thesis by (rule detD)
qed

lemma update_first:
  assumes "rx_match (update_rx role) (s, []) = (w, caps) # rest"
  shows "\<exists>g a h c. blk role s g a h c w \<and> caps = [g @ a @ h, '']''] \<and>
           (\<forall>g' a' h' c' w'. blk role s g' a' h' c' w' \<longrightarrow> length a' \<le> length a)"
proof -
  have "rx_match (head_rx role) (s, []) \<noteq> []"
    using assms by (auto simp: update_rx_def)
  from guard_match[OF this] obtain g t where g: "s = g @ t" "frames (guard_rx role) g"
    "rx_match (guard_rx role) (s, []) = [(t, [])]" by blast
  let ?T = "\<lambda>(v, cs). rx_match close_rx (v, cs @ [take (length s - length v) s])"
  have X: "concat (map (\<lambda>u. concat (map ?T (rx_match return_rx (u, []))))
              (star_res (\<lambda>x. x \<noteq> CHR ''}'') t)) = (w, caps) # rest"
    using update_candidates[OF g(3)] assms by simp
  have T: "?T (v, []) = (case close_bracket v of None \<Rightarrow> []
               | Some (c, w) \<Rightarrow> if True then [(w, [take (length s - length v) s, '']''])] else [])" for v
    by (simp add: tail_update split: option.splits)
  from block_first[where T = ?T and ok = "\<lambda>c. True"
      and capsf = "\<lambda>v c. [take (length s - length v) s, '']'']", OF g(1,2) X T]
  obtain a h c where b: "blk role s g a h c w"
    and caps: "caps = [take (length s - length (c @ '']'' @ w)) s, '']'']"
    and mx: "\<forall>g' a' h' c' w'. blk role s g' a' h' c' w' \<and> True \<longrightarrow> length a' \<le> length a"
    by blast
  from b have "s = (g @ a @ h) @ (c @ '']'' @ w)" by (simp add: blk_def)
  then have "take (length s - length (c @ '']'' @ w)) s = g @ a @ h"
    by (metis add_diff_cancel_right' append_eq_conv_conj length_append)
  with caps have caps': "caps = [g @ a @ h, '']'']" by simp
  show ?thesis
  proof (intro exI conjI)
    show "blk role s g a h c w" by (rule b)
    show "caps = [g @ a @ h, '']'']" by (rule caps')
    show "\<forall>g' a' h' c' w'. blk role s g' a' h' c' w' \<longrightarrow> length a' \<le> length a"
      using mx by simp
  qed
qed

lemma update_some:
  assumes "blk role s g a h c w"
  shows "rx_match (update_rx role) (s, []) \<noteq> []"
proof -
  from assms have s: "s = g @ (a @ h @ c @ '']'' @ w)" and g: "frames (guard_rx role) g"
    by (simp_all add: blk_def)
  from g have m: "rx_match (guard_rx role) (s, []) = [(a @ h @ c @ '']'' @ w, [])]"
    unfolding s by (rule framesD)
  let ?T = "\<lambda>(v, cs). rx_match close_rx (v, cs @ [take (length s - length v) s])"
  have T: "?T (v, []) = (case close_bracket v of None \<Rightarrow> []
               | Some (c, w) \<Rightarrow> if True then [(w, [take (length s - length v) s, '']''])] else [])" for v
    by (simp add: tail_update split: option.splits)
  show ?thesis
    unfolding update_candidates[OF m]
    by (rule block_some[where T = ?T and ok = "\<lambda>c. True"
      and capsf = "\<lambda>v c. [take (length s - length v) s, '']'']", OF assms TrueI T])
qed

lemma parse_first:
  assumes "rx_match (parse_rx role) (s, []) = (w, caps) # rest"
  shows "\<exists>g a h c. blk role s g a h c w \<and> c \<noteq> [] \<and> caps = [c] \<and>
           (\<forall>g' a' h' c' w'. blk role s g' a' h' c' w' \<and> c' \<noteq> [] \<longrightarrow> length a' \<le> length a)"
proof -
  have "rx_match (head_rx role) (s, []) \<noteq> []"
    using assms by (auto simp: parse_rx_def)
  from guard_match[OF this] obtain g t where g: "s = g @ t" "frames (guard_rx role) g"
    "rx_match (guard_rx role) (s, []) = [(t, [])]" by blast
  let ?T = "rx_match list_rx"
  have X: "concat (map (\<lambda>u. concat (map ?T (rx_match return_rx (u, []))))
              (star_res (\<lambda>x. x \<noteq> CHR ''}'') t)) = (w, caps) # rest"
    using parse_candidates[OF g(3)] assms by simp
  have T: "?T (v, []) = (case close_bracket v of None \<Rightarrow> []
               | Some (c, w) \<Rightarrow> if c \<noteq> [] then [(w, [c])] else [])" for v
    by (simp add: tail_parse split: option.splits)
  from block_first[where T = ?T and ok = "\<lambda>c. c \<noteq> []" and capsf = "\<lambda>v c. [c]", OF g(1,2) X T]
  obtain a h c where b: "blk role s g a h c w" "c \<noteq> []" "caps = [c]"
    and mx: "\<forall>g' a' h' c' w'. blk role s g' a' h' c' w' \<and> c' \<noteq> [] \<longrightarrow> length a' \<le> length a"
    by blast
  show ?thesis
  proof (intro exI conjI)
    show "blk role s g a h c w" by (rule b(1))
    show "c \<noteq> []" by (rule b(2))
    show "caps = [c]" by (rule b(3))
    show "\<forall>g' a' h' c' w'. blk role s g' a' h' c' w' \<and> c' \<noteq> [] \<longrightarrow> length a' \<le> length a"
      by (rule mx)
  qed
qed

lemma parse_some:
  assumes "blk role s g a h c w" "c \<noteq> []"
  shows "rx_match (parse_rx role) (s, []) \<noteq> []"
proof -
  from assms have s: "s = g @ (a @ h @ c @ '']'' @ w)" and g: "frames (guard_rx role) g"
    by (simp_all add: blk_def)
  from g have m: "rx_match (guard_rx role) (s, []) = [(a @ h @ c @ '']'' @ w, [])]"
    unfolding s by (rule framesD)
  let ?T = "rx_match list_rx"
  have T: "?T (v, []) = (case close_bracket v of None \<Rightarrow> []
               | Some (c, w) \<Rightarrow> if c \<noteq> [] then [(w, [c])] else [])" for v
    by (simp add: tail_parse split: option.splits)
  show ?thesis
    unfolding parse_candidates[OF m]
    by (rule block_some[where T = ?T and ok = "\<lambda>c. c \<noteq> []" and capsf = "\<lambda>v c. [c]",
          OF assms(1) assms(2) T])
qed

lemma first_bracket_unique:
  assumes "c @ CHR '']'' # w = c' @ CHR '']'' # w'" "CHR '']'' \<notin> set c" "CHR '']'' \<notin> set c'"
  shows "c = c' \<and> w = w'"
proof -
  have 1: "close_bracket (c @ CHR '']'' # w) = Some (c, w)"
    using assms(2) by (simp add: close_bracket_iff)
  have 2: "close_bracket (c' @ CHR '']'' # w') = Some (c', w')"
    using assms(3) by (simp add: close_bracket_iff)
  have "Some (c, w) = close_bracket (c @ CHR '']'' # w)" using 1 by simp
  also have "\<dots> = close_bracket (c' @ CHR '']'' # w')" by (simp only: assms(1))
  also have "\<dots> = Some (c', w')" by (rule 2)
  finally show ?thesis by simp
qed

lemma blk_unique:
  assumes "blk role s g a h c w" "blk role s g' a' h' c' w'" "length a = length a'"
  shows "g = g' \<and> a = a' \<and> h = h' \<and> c = c' \<and> w = w'"
proof -
  from assms(1) have s: "s = g @ a @ h @ c @ '']'' @ w" and g: "frames (guard_rx role) g"
    and h: "frames return_rx h" and c: "CHR '']'' \<notin> set c" by (simp_all add: blk_def)
  from assms(2) have s': "s = g' @ a' @ h' @ c' @ '']'' @ w'" and g': "frames (guard_rx role) g'"
    and h': "frames return_rx h'" and c': "CHR '']'' \<notin> set c'" by (simp_all add: blk_def)
  have "g @ (a @ h @ c @ '']'' @ w) = g' @ (a' @ h' @ c' @ '']'' @ w')" using s s' by simp
  from frames_unique[OF g g' this]
  have 1: "g = g'" and e1: "a @ (h @ c @ '']'' @ w) = a' @ (h' @ c' @ '']'' @ w')" by simp_all
  from e1 assms(3) have 2: "a = a'" and e2: "h @ (c @ '']'' @ w) = h' @ (c' @ '']'' @ w')" by simp_all
  from frames_unique[OF h h' e2]
  have 3: "h = h'" and e3: "c @ CHR '']'' # w = c' @ CHR '']'' # w'" by simp_all
  from first_bracket_unique[OF e3 c c'] have "c = c' \<and> w = w'" .
  with 1 2 3 show ?thesis by simp
qed

subsection \<open>The search from the left\<close>

lemma rx_exec_Some:
  "rx_exec r pre s = Some (b, t, caps) \<Longrightarrow>
     \<exists>b' m rest. b = pre @ b' \<and> s = b' @ m \<and> rx_match r (m, []) = (t, caps) # rest \<and>
       (\<forall>b1 b2. b' = b1 @ b2 \<and> b2 \<noteq> [] \<longrightarrow> rx_match r (b2 @ m, []) = [])"
proof (induction s arbitrary: pre)
  case Nil
  then obtain rest where m: "rx_match r ([], []) = (t, caps) # rest" and b: "b = pre"
    by (auto split: list.splits)
  show ?case
  proof (intro exI conjI)
    show "b = pre @ []" using b by simp
    show "[] = [] @ ([]::string)" by simp
    show "rx_match r ([], []) = (t, caps) # rest" by (rule m)
    show "\<forall>b1 b2. [] = b1 @ b2 \<and> b2 \<noteq> [] \<longrightarrow> rx_match r (b2 @ [], []) = []" by simp
  qed
next
  case (Cons x xs)
  show ?case
  proof (cases "rx_match r (x # xs, [])")
    case Nil
    with Cons.prems have e: "rx_exec r (pre @ [x]) xs = Some (b, t, caps)" by simp
    from Cons.IH[OF e] obtain b' m rest where
      i: "b = (pre @ [x]) @ b'" "xs = b' @ m" "rx_match r (m, []) = (t, caps) # rest"
      and n: "\<And>b1 b2. b' = b1 @ b2 \<Longrightarrow> b2 \<noteq> [] \<Longrightarrow> rx_match r (b2 @ m, []) = []"
      by blast
    have n': "rx_match r (b2 @ m, []) = []" if "x # b' = b1 @ b2" "b2 \<noteq> []" for b1 b2
    proof (cases b1)
      case Nil
      with that i(2) have "b2 @ m = x # xs" by simp
      with \<open>rx_match r (x # xs, []) = []\<close> show ?thesis by simp
    next
      case (Cons y b1')
      with that have "b' = b1' @ b2" by simp
      from n[OF this that(2)] show ?thesis .
    qed
    show ?thesis
    proof (intro exI conjI)
      show "b = pre @ (x # b')" using i(1) by simp
      show "x # xs = (x # b') @ m" using i(2) by simp
      show "rx_match r (m, []) = (t, caps) # rest" by (rule i(3))
      show "\<forall>b1 b2. x # b' = b1 @ b2 \<and> b2 \<noteq> [] \<longrightarrow> rx_match r (b2 @ m, []) = []"
        using n' by blast
    qed
  next
    case (Cons st rest)
    with Cons.prems have st: "st = (t, caps)" and b: "b = pre" by (auto split: prod.splits)
    show ?thesis
    proof (intro exI conjI)
      show "b = pre @ []" using b by simp
      show "x # xs = [] @ (x # xs)" by simp
      show "rx_match r (x # xs, []) = (t, caps) # rest" using Cons st by simp
      show "\<forall>b1 b2. [] = b1 @ b2 \<and> b2 \<noteq> [] \<longrightarrow> rx_match r (b2 @ (x # xs), []) = []" by simp
    qed
  qed
qed

lemma rx_exec_intro:
  assumes "\<And>b1 b2. b' = b1 @ b2 \<Longrightarrow> b2 \<noteq> [] \<Longrightarrow> rx_match r (b2 @ m, []) = []"
    and "rx_match r (m, []) = (t, caps) # rest"
  shows "rx_exec r pre (b' @ m) = Some (pre @ b', t, caps)"
  using assms(1)
proof (induction b' arbitrary: pre)
  case Nil
  then show ?case using assms(2) by (cases m) auto
next
  case (Cons y b'')
  have "rx_match r ((y # b'') @ m, []) = []"
    by (rule Cons.prems[of "[]"]) simp_all
  moreover have "rx_exec r (pre @ [y]) (b'' @ m) = Some ((pre @ [y]) @ b'', t, caps)"
  proof (rule Cons.IH)
    fix b1 b2 assume "b'' = b1 @ b2" "b2 \<noteq> []"
    then show "rx_match r (b2 @ m, []) = []" using Cons.prems[of "y # b1" b2] by simp
  qed
  ultimately show ?case by simp
qed

subsection \<open>Texts of the guard and of the assignment head\<close>

lemma frames_alphabet:
  assumes "frames r g"
  shows "set g \<subseteq> alphabet r"
proof -
  from assms have "rx_match r (g @ [], []) = [([], [])]" by (rule framesD)
  then have "([], []) \<in> set (rx_match r (g, []))" by simp
  from rx_match_shape[OF this] show ?thesis by auto
qed

lemma guard_no_bracket:
  assumes "frames (guard_rx role) g" "CHR ''['' \<notin> set role"
  shows "CHR ''['' \<notin> set g"
proof -
  have "CHR ''['' \<notin> alphabet (guard_rx role)"
    using assms(2) by (simp add: guard_rx_def)
  with frames_alphabet[OF assms(1)] show ?thesis by blast
qed

lemma rx_match_Seq_fun: "rx_match (Seq a b) = (\<lambda>st. concat (map (rx_match b) (rx_match a st)))"
  by (rule ext) simp

lemma return_text:
  assumes "frames return_rx h"
  shows "\<exists>h0. h = h0 @ ''['' \<and> CHR ''['' \<notin> set h0 \<and> CHR '']'' \<notin> set h0"
proof -
  let ?A = "seqs [Lit ''_return'', Star Space, Lit ''='', Star Space]"
  from assms have "rx_match return_rx (h @ [], []) = [([], [])]" by (rule framesD)
  then have m: "([], []) \<in> set (rx_match return_rx (h, []))" by simp
  have "rx_match return_rx st = rx_match (Seq ?A (Lit ''['')) st" for st
    by (simp add: return_rx_def rx_match_Seq_fun concat_map_concat_map del: rx_match.simps)
  with m have "([], []) \<in> set (rx_match (Seq ?A (Lit ''['')) (h, []))" by simp
  then obtain u cu where 1: "(u, cu) \<in> set (rx_match ?A (h, []))"
    and 2: "([], []) \<in> set (rx_match (Lit ''['') (u, cu))"
    by (auto simp only: rx_match.simps set_concat set_map)
  from 2 have u: "u = ''[''" by (cases u) (auto split: if_splits)
  from rx_match_shape[OF 1] obtain h0 where h0: "h = h0 @ u" "set h0 \<subseteq> alphabet ?A" by blast
  have "CHR ''['' \<notin> alphabet ?A" "CHR '']'' \<notin> alphabet ?A" by (simp_all add: is_space_def)
  with h0 u show ?thesis by blast
qed

subsection \<open>Splitting equal texts\<close>

lemma split_inner:
  "g @ a @ h = y @ z # u \<Longrightarrow> z \<notin> set g \<Longrightarrow> z \<notin> set h \<Longrightarrow>
     \<exists>a1 a2. a = a1 @ z # a2 \<and> y = g @ a1 \<and> u = a2 @ h"
proof (induction g arbitrary: y)
  case Nil
  then have e: "a @ h = y @ z # u" by simp
  then show ?case using Nil.prems(3)
  proof (induction a arbitrary: y)
    case Nil
    then have "z \<in> set h" by (metis append_Nil in_set_conv_decomp)
    with Nil show ?case by simp
  next
    case (Cons x a)
    show ?case
    proof (cases y)
      case Nil
      with Cons.prems have "x = z" "u = a @ h" by simp_all
      with Nil show ?thesis by simp
    next
      case (Cons y1 y')
      with Cons.prems have "a @ h = y' @ z # u" "x = y1" by simp_all
      from Cons.IH[OF this(1) Cons.prems(2)] obtain a1 a2 where
        "a = a1 @ z # a2" "y' = [] @ a1" "u = a2 @ h" by blast
      with \<open>x = y1\<close> Cons have "x # a = (x # a1) @ z # a2 \<and> y = [] @ (x # a1) \<and> u = a2 @ h" by simp
      then show ?thesis by blast
    qed
  qed
next
  case (Cons x g)
  show ?case
  proof (cases y)
    case Nil
    with Cons.prems have "x = z" by simp
    with Cons.prems(2) show ?thesis by simp
  next
    case (Cons y1 y')
    with Cons.prems have "g @ a @ h = y' @ z # u" "x = y1" "z \<notin> set g" by simp_all
    from Cons.IH[OF this(1) this(3) Cons.prems(3)] obtain a1 a2 where
      "a = a1 @ z # a2" "y' = g @ a1" "u = a2 @ h" by blast
    with \<open>x = y1\<close> Cons have "a = a1 @ z # a2 \<and> y = (x # g) @ a1 \<and> u = a2 @ h" by simp
    then show ?thesis by blast
  qed
qed

lemma no_early_close:
  "c @ z # w = h @ k # r \<Longrightarrow> z \<notin> set h \<Longrightarrow> z \<noteq> k \<Longrightarrow> k \<notin> set c \<Longrightarrow> False"
proof (induction c arbitrary: h)
  case Nil
  then show ?case by (cases h) auto
next
  case (Cons y c)
  show ?case
  proof (cases h)
    case Nil
    with Cons.prems show ?thesis by simp
  next
    case (Cons h1 h')
    with Cons.prems have "c @ z # w = h' @ k # r" "z \<notin> set h'" "k \<notin> set c" by simp_all
    from Cons.IH[OF this(1,2) Cons.prems(3) this(3)] show ?thesis .
  qed
qed

lemma split_close:
  "c @ z # w = a @ h @ k # r \<Longrightarrow> z \<notin> set h \<Longrightarrow> z \<noteq> k \<Longrightarrow> k \<notin> set c \<Longrightarrow>
     \<exists>a3. a = c @ z # a3 \<and> w = a3 @ h @ k # r"
proof (induction a arbitrary: c)
  case Nil
  then have "c @ z # w = h @ k # r" by simp
  from no_early_close[OF this Nil.prems(2,3,4)] show ?case ..
next
  case (Cons x a)
  show ?case
  proof (cases c)
    case Nil
    with Cons.prems show ?thesis by simp
  next
    case (Cons c1 c')
    with Cons.prems have "c' @ z # w = a @ h @ k # r" "c1 = x" "k \<notin> set c'" by simp_all
    from Cons.IH[OF this(1) Cons.prems(2,3) this(3)] obtain a3 where
      "a = c' @ z # a3" "w = a3 @ h @ k # r" by blast
    with \<open>c1 = x\<close> Cons show ?thesis by simp
  qed
qed

lemma append_eq_cases:
  assumes "y @ p = x @ q"
  obtains (left) us where "y = x @ us" "us @ p = q"
    | (right) us where "us \<noteq> []" "x = y @ us" "p = us @ q"
proof -
  from assms have "\<exists>us. (y = x @ us \<and> us @ p = q) \<or> (y @ us = x \<and> p = us @ q)"
    by (simp add: append_eq_append_conv2)
  then obtain us where us: "(y = x @ us \<and> us @ p = q) \<or> (y @ us = x \<and> p = us @ q)" ..
  show ?thesis
  proof (cases "y = x @ us \<and> us @ p = q")
    case True
    then show ?thesis using left by blast
  next
    case False
    with us have r: "y @ us = x" "p = us @ q" by blast+
    show ?thesis
    proof (cases "us = []")
      case True
      with r have "y = x @ []" "[] @ p = q" by simp_all
      then show ?thesis by (rule left)
    next
      case False
      with r show ?thesis using right by blast
    qed
  qed
qed

subsection \<open>A block read in the rewritten text is a block of the original text\<close>

lemma blk_transfer:
  assumes B: "blk role (y0 @ ''['' @ c' @ '']'' @ w) gq aq hq cq wq"
    and c1: "CHR '']'' \<notin> set c" and c2: "CHR ''}'' \<notin> set c"
    and c'1: "CHR '']'' \<notin> set c'" and c'2: "CHR ''['' \<notin> set c'"
    and role: "CHR ''['' \<notin> set role"
  shows "\<exists>a' c'' w''. blk role (y0 @ ''['' @ c @ '']'' @ w) gq a' hq c'' w'' \<and>
           (a' = aq \<or> length y0 < length (gq @ a'))"
proof -
  from B have eq: "y0 @ ''['' @ c' @ '']'' @ w = gq @ aq @ hq @ cq @ '']'' @ wq"
    and g: "frames (guard_rx role) gq" and a: "CHR ''}'' \<notin> set aq"
    and h: "frames return_rx hq" and cq: "CHR '']'' \<notin> set cq"
    by (simp_all add: blk_def)
  from return_text[OF h] obtain h0 where h0: "hq = h0 @ ''[''" "CHR ''['' \<notin> set h0" "CHR '']'' \<notin> set h0"
    by blast
  from guard_no_bracket[OF g role] have gb: "CHR ''['' \<notin> set gq" .
  let ?X = "gq @ aq @ h0"
  from eq h0(1) have eq': "y0 @ (CHR ''['' # c' @ CHR '']'' # w) = ?X @ (CHR ''['' # cq @ CHR '']'' # wq)"
    by simp
  have done_same: ?thesis if b: "blk role (y0 @ ''['' @ c @ '']'' @ w) gq aq hq c'' w''" for c'' w''
  proof (intro exI conjI)
    show "blk role (y0 @ ''['' @ c @ '']'' @ w) gq aq hq c'' w''" by (rule b)
    show "aq = aq \<or> length y0 < length (gq @ aq)" by simp
  qed
  from eq' show ?thesis
  proof (cases rule: append_eq_cases)
    case (left us)
    show ?thesis
    proof (cases us)
      case Nil
      with left have y0: "y0 = ?X" and e: "c' @ CHR '']'' # w = cq @ CHR '']'' # wq" by simp_all
      from first_bracket_unique[OF e c'1 cq] have "cq = c'" "wq = w" by simp_all
      have "blk role (y0 @ ''['' @ c @ '']'' @ w) gq aq hq c w"
        unfolding blk_def using y0 h0(1) g a h c1 by simp
      then show ?thesis by (rule done_same)
    next
      case (Cons u us')
      with left have u: "u = CHR ''[''" and y0: "y0 = ?X @ CHR ''['' # us'"
        and e: "us' @ CHR ''['' # c' @ CHR '']'' # w = cq @ CHR '']'' # wq" by simp_all
      show ?thesis
      proof (cases "CHR '']'' \<in> set us'")
        case True
        from split_list_first[OF this] obtain z1 z2 where z: "us' = z1 @ CHR '']'' # z2" "CHR '']'' \<notin> set z1"
          by blast
        with e have "z1 @ CHR '']'' # (z2 @ CHR ''['' # c' @ CHR '']'' # w) = cq @ CHR '']'' # wq" by simp
        from first_bracket_unique[OF this z(2) cq] have "cq = z1" by simp
        have "blk role (y0 @ ''['' @ c @ '']'' @ w) gq aq hq z1 (z2 @ ''['' @ c @ '']'' @ w)"
          unfolding blk_def using y0 z h0(1) g a h by simp
        then show ?thesis by (rule done_same)
      next
        case False
        have "blk role (y0 @ ''['' @ c @ '']'' @ w) gq aq hq (us' @ ''['' @ c) w"
          unfolding blk_def using y0 False h0(1) g a h c1 by simp
        then show ?thesis by (rule done_same)
      qed
    qed
  next
    case (right us)
    then obtain u us' where us: "us = u # us'" by (cases us) auto
    with right have u: "u = CHR ''[''" and X: "?X = y0 @ CHR ''['' # us'"
      and e: "c' @ CHR '']'' # w = us' @ CHR ''['' # cq @ CHR '']'' # wq" by simp_all
    from split_inner[OF X gb h0(2)] obtain a1 a2 where
      a12: "aq = a1 @ CHR ''['' # a2" "y0 = gq @ a1" "us' = a2 @ h0" by blast
    from e a12(3) have "c' @ CHR '']'' # w = a2 @ h0 @ CHR ''['' # (cq @ CHR '']'' # wq)" by simp
    from split_close[OF this h0(3) _ c'2] obtain a3 where
      a3: "a2 = c' @ CHR '']'' # a3" "w = a3 @ h0 @ CHR ''['' # (cq @ CHR '']'' # wq)" by auto
    let ?a = "a1 @ ''['' @ c @ '']'' @ a3"
    from a a12(1) a3(1) c2 have na: "CHR ''}'' \<notin> set ?a" by simp
    have b: "blk role (y0 @ ''['' @ c @ '']'' @ w) gq ?a hq cq wq"
      unfolding blk_def using a12(2) a3(2) h0(1) g h cq na by simp
    show ?thesis
    proof (intro exI conjI)
      show "blk role (y0 @ ''['' @ c @ '']'' @ w) gq ?a hq cq wq" by (rule b)
      show "?a = aq \<or> length y0 < length (gq @ ?a)" using a12(2) by simp
    qed
  qed
qed

subsection \<open>Updating, then parsing\<close>

lemma blk_guard_unique:
  assumes "blk role s g a h c w" "blk role s g' a' h' c' w'"
  shows "g = g'"
proof -
  from assms(1) have s: "s = g @ (a @ h @ c @ '']'' @ w)" and g: "frames (guard_rx role) g"
    by (simp_all add: blk_def)
  from assms(2) have s': "s = g' @ (a' @ h' @ c' @ '']'' @ w')" and g': "frames (guard_rx role) g'"
    by (simp_all add: blk_def)
  from s s' have "g @ (a @ h @ c @ '']'' @ w) = g' @ (a' @ h' @ c' @ '']'' @ w')" by simp
  from frames_unique[OF g g' this] show ?thesis by simp
qed

lemma update_located:
  assumes "rx_exec (update_rx role) [] content = Some (pre, post, caps)"
  shows "\<exists>g a h c. located role content pre g a h c post \<and> caps = [g @ a @ h, '']'']"
proof -
  from rx_exec_Some[OF assms] obtain b' m rest where
    e: "pre = [] @ b'" "content = b' @ m" "rx_match (update_rx role) (m, []) = (post, caps) # rest"
    and n: "\<forall>b1 b2. b' = b1 @ b2 \<and> b2 \<noteq> [] \<longrightarrow> rx_match (update_rx role) (b2 @ m, []) = []"
    by blast
  from update_first[OF e(3)] obtain g a h c where
    b: "blk role m g a h c post" and caps: "caps = [g @ a @ h, '']'']"
    and mx: "\<forall>g' a' h' c' w'. blk role m g' a' h' c' w' \<longrightarrow> length a' \<le> length a"
    by blast
  from b have m: "m = g @ a @ h @ c @ '']'' @ post" by (simp add: blk_def)
  have "located role content pre g a h c post"
    unfolding located_def using e(1,2) b mx n unfolding m by simp
  with caps show ?thesis by blast
qed

lemma parse_after_update:
  assumes L: "located role content pre g a h c post"
    and c: "CHR ''}'' \<notin> set c"
    and c': "c' \<noteq> []" "CHR '']'' \<notin> set c'" "CHR ''['' \<notin> set c'"
    and role: "CHR ''['' \<notin> set role"
  shows "rx_exec (parse_rx role) [] (pre @ g @ a @ h @ c' @ '']'' @ post) = Some (pre, post, [c'])"
proof -
  let ?m = "g @ a @ h @ c @ '']'' @ post"
  let ?m' = "g @ a @ h @ c' @ '']'' @ post"
  from L have b: "blk role ?m g a h c post"
    and mxa: "\<forall>g' a' h' c' w'. blk role ?m g' a' h' c' w' \<longrightarrow> length a' \<le> length a"
    and na: "\<forall>b1 b2. pre = b1 @ b2 \<and> b2 \<noteq> [] \<longrightarrow> rx_match (update_rx role) (b2 @ ?m, []) = []"
    unfolding located_def by blast+
  have mx: "length a' \<le> length a" if "blk role ?m g' a' h' c' w'" for g' a' h' c' w'
    using mxa that by blast
  have n: "rx_match (update_rx role) (b2 @ ?m, []) = []" if "pre = b1 @ b2" "b2 \<noteq> []" for b1 b2
    using na that by blast
  from b have g: "frames (guard_rx role) g" and a: "CHR ''}'' \<notin> set a"
    and h: "frames return_rx h" and cb: "CHR '']'' \<notin> set c"
    by (simp_all add: blk_def)
  from return_text[OF h] obtain h0 where h0: "h = h0 @ ''[''" by blast
  have b': "blk role ?m' g a h c' post"
    unfolding blk_def using g a h c'(2) by simp
  have early: "rx_match (parse_rx role) (b2 @ ?m', []) = []" if "pre = b1 @ b2" "b2 \<noteq> []" for b1 b2
  proof (rule ccontr)
    assume "rx_match (parse_rx role) (b2 @ ?m', []) \<noteq> []"
    then obtain w cp r where "rx_match (parse_rx role) (b2 @ ?m', []) = (w, cp) # r"
      by (cases "rx_match (parse_rx role) (b2 @ ?m', [])") auto
    from parse_first[OF this] obtain gq aq hq cq where "blk role (b2 @ ?m') gq aq hq cq w" by blast
    then have "blk role ((b2 @ g @ a @ h0) @ ''['' @ c' @ '']'' @ post) gq aq hq cq w"
      using h0 by simp
    from blk_transfer[OF this cb c c'(2,3) role] obtain a2 c2 w2 where
      "blk role ((b2 @ g @ a @ h0) @ ''['' @ c @ '']'' @ post) gq a2 hq c2 w2" by blast
    then have "blk role (b2 @ ?m) gq a2 hq c2 w2" using h0 by simp
    from update_some[OF this] n[OF that] show False by simp
  qed
  have here: "\<exists>r. rx_match (parse_rx role) (?m', []) = (post, [c']) # r"
  proof -
    from parse_some[OF b' c'(1)] obtain w2 cp2 r2 where
      m2: "rx_match (parse_rx role) (?m', []) = (w2, cp2) # r2"
      by (cases "rx_match (parse_rx role) (?m', [])") auto
    from parse_first[OF this] obtain g2 a2 h2 c2 where
      b2: "blk role ?m' g2 a2 h2 c2 w2" and cp2: "cp2 = [c2]"
      and mx2: "\<forall>g' a' h' c' w'. blk role ?m' g' a' h' c' w' \<and> c' \<noteq> [] \<longrightarrow> length a' \<le> length a2"
      by blast
    from mx2 b' c'(1) have le1: "length a \<le> length a2" by blast
    from b2 have "blk role ((g @ a @ h0) @ ''['' @ c' @ '']'' @ post) g2 a2 h2 c2 w2"
      using h0 by simp
    from blk_transfer[OF this cb c c'(2,3) role] obtain a3 c3 w3 where
      b3: "blk role ((g @ a @ h0) @ ''['' @ c @ '']'' @ post) g2 a3 h2 c3 w3"
      and alt: "a3 = a2 \<or> length (g @ a @ h0) < length (g2 @ a3)" by blast
    from b3 have b3': "blk role ?m g2 a3 h2 c3 w3" using h0 by simp
    from mx[OF b3'] have le3: "length a3 \<le> length a" .
    from blk_guard_unique[OF b b3'] have gg: "g = g2" .
    from alt le3 gg have "a3 = a2" by auto
    with le3 le1 have "length a = length a2" by simp
    from blk_unique[OF b' b2 this] have "c' = c2" "post = w2" by simp_all
    with m2 cp2 show ?thesis by simp
  qed
  then obtain r where r: "rx_match (parse_rx role) (?m', []) = (post, [c']) # r" ..
  from rx_exec_intro[where r = "parse_rx role" and pre = "[]" and b' = pre and m = ?m', OF early r]
  show ?thesis by simp
qed

subsection \<open>The formatted list and its parse\<close>

lemma digit_chars:
  assumes "is_digit c"
  shows "c \<noteq> SQ" "c \<noteq> DQ" "c \<noteq> CHR '',''" "\<not> is_space c" "c \<noteq> CHR ''$''" "c \<noteq> CHR '']''"
    "c \<noteq> CHR ''[''" "c \<noteq> CHR ''}''"
  using assms by (auto simp: is_digit_def is_space_def)

lemma digit_string_chars:
  assumes "digit_string u"
  shows "SQ \<notin> set u" "DQ \<notin> set u" "CHR '','' \<notin> set u" "CHR ''$'' \<notin> set u" "CHR '']'' \<notin> set u"
    "CHR ''['' \<notin> set u" "CHR ''}'' \<notin> set u"
proof -
  from assms have d: "\<And>x. x \<in> set u \<Longrightarrow> is_digit x"
    by (simp add: digit_string_def list_all_iff)
  show "SQ \<notin> set u" using d digit_chars(1) by blast
  show "DQ \<notin> set u" using d digit_chars(2) by blast
  show "CHR '','' \<notin> set u" using d digit_chars(3) by blast
  show "CHR ''$'' \<notin> set u" using d digit_chars(5) by blast
  show "CHR '']'' \<notin> set u" using d digit_chars(6) by blast
  show "CHR ''['' \<notin> set u" using d digit_chars(7) by blast
  show "CHR ''}'' \<notin> set u" using d digit_chars(8) by blast
qed

lemma join_Cons: "us \<noteq> [] \<Longrightarrow> join sep (u # us) = u @ sep @ join sep us"
  by (cases us) auto

lemma format_uids_Nil: "format_uids [] = [LF, TAB]"
  by (simp add: format_uids_def)

lemma join_piece_nonempty:
  assumes "us \<noteq> []"
  shows "join sep (map piece us) \<noteq> []"
proof (cases us)
  case Nil
  with assms show ?thesis by simp
next
  case (Cons u us')
  then show ?thesis by (cases us') (simp_all add: piece_def)
qed

lemma format_uids_single: "format_uids [u] = LF # piece u @ [LF, TAB]"
  by (simp add: format_uids_def piece_def)

lemma format_uids_Cons:
  assumes "us \<noteq> []"
  shows "format_uids (u # us) = (LF # piece u) @ CHR '','' # format_uids us"
proof -
  from assms have j: "join ('','' @ [LF]) (map piece us) \<noteq> []" by (rule join_piece_nonempty)
  from assms have "map piece us \<noteq> []" by simp
  then have "join ('','' @ [LF]) (map piece (u # us)) = piece u @ ('','' @ [LF]) @ join ('','' @ [LF]) (map piece us)"
    by (simp add: join_Cons)
  then have "join ('','' @ [LF]) (map piece (u # us)) \<noteq> []" by (simp add: piece_def)
  with j \<open>join ('','' @ [LF]) (map piece (u # us)) = _\<close> show ?thesis
    unfolding format_uids_def Let_def piece_def[symmetric, abs_def]
    by (simp add: piece_def)
qed

lemma format_uids_chars:
  "set (format_uids uids) \<subseteq> {LF, TAB, SQ, CHR '',''} \<union> (\<Union>u \<in> set uids. set u)"
proof (induction uids)
  case Nil
  then show ?case by (simp add: format_uids_Nil)
next
  case (Cons u us)
  show ?case
  proof (cases us)
    case Nil
    then show ?thesis by (auto simp: format_uids_single piece_def)
  next
    case (Cons v vs)
    then have "us \<noteq> []" by simp
    from format_uids_Cons[OF this] Cons.IH show ?thesis by (auto simp: piece_def)
  qed
qed

lemma format_uids_nonempty: "format_uids uids \<noteq> []"
  by (simp add: format_uids_def Let_def)

lemma format_uids_hd: "\<exists>r. format_uids uids = LF # r"
  by (simp add: format_uids_def Let_def)

lemma format_uids_avoids:
  assumes "list_all digit_string uids" "z \<notin> {LF, TAB, SQ, CHR '',''}" "\<And>c. is_digit c \<Longrightarrow> c \<noteq> z"
  shows "z \<notin> set (format_uids uids)"
proof
  assume "z \<in> set (format_uids uids)"
  with format_uids_chars assms(2) obtain u where "u \<in> set uids" "z \<in> set u" by blast
  with assms(1) have "is_digit z" by (auto simp: list_all_iff digit_string_def)
  with assms(3) show False by blast
qed

lemma split_comma_plain: "CHR '','' \<notin> set a \<Longrightarrow> split_comma a = [a]"
  by (induction a) auto

lemma split_comma_append: "CHR '','' \<notin> set a \<Longrightarrow> split_comma (a @ CHR '','' # b) = a # split_comma b"
  by (induction a) auto

lemma trim_quoted:
  assumes "list_all is_space ws1" "list_all is_space ws2"
  shows "trim (ws1 @ SQ # u @ SQ # ws2) = SQ # u @ [SQ]"
proof -
  have 1: "dropWhile is_space (ws1 @ SQ # u @ SQ # ws2) = SQ # u @ SQ # ws2"
    using assms(1) by (intro dropWhile_run) simp_all
  have "rev (SQ # u @ SQ # ws2) = rev ws2 @ (SQ # rev u @ [SQ])" by simp
  moreover have "dropWhile is_space (rev ws2 @ (SQ # rev u @ [SQ])) = SQ # rev u @ [SQ]"
    using assms(2) by (intro dropWhile_run) simp_all
  ultimately show ?thesis unfolding trim_def 1 by simp
qed

lemma clean_piece:
  assumes "digit_string u" "list_all is_space ws"
  shows "clean (LF # piece u @ ws) = u"
proof -
  have e: "LF # piece u @ ws = [LF, TAB, TAB] @ SQ # u @ SQ # ws" by (simp add: piece_def)
  have sp: "list_all is_space [LF, TAB, TAB]" by (simp add: is_space_def)
  have "trim (LF # piece u @ ws) = SQ # u @ [SQ]"
    unfolding e by (rule trim_quoted[OF sp assms(2)])
  moreover have "filter (\<lambda>c. c \<notin> set [SQ, DQ]) u = u"
    using digit_string_chars(1,2)[OF assms(1)] by (auto simp: filter_id_conv)
  ultimately show ?thesis by (simp add: clean_def)
qed

lemma extract_uids_clean:
  "extract_uids s = filter digit_string (map clean (split_comma s))"
proof -
  have "(\<lambda>uid. uid \<noteq> [] \<and> rx_full (Plus Digit) uid) = digit_string"
    by (rule ext) (auto simp: rx_full_Plus in_cls_Digit digit_string_def)
  moreover have "(\<lambda>uid. filter (\<lambda>c. c \<notin> set [SQ, DQ]) (trim uid)) = clean"
    by (rule ext) (simp add: clean_def)
  ultimately show ?thesis unfolding extract_uids_def by simp
qed

lemma extract_format:
  assumes "list_all digit_string uids"
  shows "extract_uids (format_uids uids) = uids"
  using assms
proof (induction uids)
  case Nil
  have "clean [LF, TAB] = []" by (simp add: clean_def trim_def is_space_def)
  then show ?case by (simp add: extract_uids_clean format_uids_Nil digit_string_def)
next
  case (Cons u us)
  then have u: "digit_string u" and us: "list_all digit_string us" by simp_all
  show ?case
  proof (cases us)
    case Nil
    have "CHR '','' \<notin> set (LF # piece u @ [LF, TAB])"
      using digit_string_chars(3)[OF u] by (simp add: piece_def)
    then have "split_comma (format_uids [u]) = [LF # piece u @ [LF, TAB]]"
      unfolding format_uids_single by (rule split_comma_plain)
    moreover have "clean (LF # piece u @ [LF, TAB]) = u"
      using u by (rule clean_piece) (simp add: is_space_def)
    ultimately show ?thesis using Nil u by (simp add: extract_uids_clean)
  next
    case (Cons v vs)
    then have ne: "us \<noteq> []" by simp
    have "CHR '','' \<notin> set (LF # piece u)"
      using digit_string_chars(3)[OF u] by (simp add: piece_def)
    then have "split_comma (format_uids (u # us)) = (LF # piece u) # split_comma (format_uids us)"
      unfolding format_uids_Cons[OF ne] by (rule split_comma_append)
    moreover have "clean (LF # piece u) = u"
      using clean_piece[OF u, of "[]"] by simp
    ultimately show ?thesis using u Cons.IH[OF us] by (simp add: extract_uids_clean)
  qed
qed

subsection \<open>The replacement template\<close>

lemma get_substitution_plain:
  "CHR ''$'' \<notin> set r \<Longrightarrow>
     get_substitution m pre post caps (r @ t) = r @ get_substitution m pre post caps t"
  by (induction r) auto

lemma template_expansion:
  assumes "CHR ''$'' \<notin> set r"
  shows "get_substitution m pre post [g1, g2] (''$1'' @ (LF # r) @ ''$2'') = g1 @ (LF # r) @ g2"
proof -
  have 2: "get_substitution m pre post [g1, g2] ''$2'' = g2"
    by (simp add: is_digit_def digit_val_def)
  have "get_substitution m pre post [g1, g2] (''$1'' @ (LF # r) @ ''$2'')
      = g1 @ get_substitution m pre post [g1, g2] ((LF # r) @ ''$2'')"
    by (simp add: is_digit_def digit_val_def)
  also have "\<dots> = g1 @ (LF # r) @ get_substitution m pre post [g1, g2] ''$2''"
    using assms by (subst get_substitution_plain) simp_all
  finally show ?thesis using 2 by simp
qed

subsection \<open>updateWhitelistInContent and parseContent\<close>

lemma validRoles_no_bracket: "role \<in> set validRoles \<Longrightarrow> CHR ''['' \<notin> set role"
proof -
  have "\<forall>role \<in> set validRoles. CHR ''['' \<notin> set role" by code_simp
  then show "role \<in> set validRoles \<Longrightarrow> CHR ''['' \<notin> set role" by blast
qed

lemma old_list_text_located:
  assumes "rx_exec (update_rx role) [] content = Some (pre, post, caps)"
    and "located role content pre g a h c post" and "caps = [g @ a @ h, '']'']"
  shows "old_list_text role content = Some c"
proof -
  from assms(2) have e: "content = pre @ (g @ a @ h) @ c @ '']'' @ post" by (simp add: located_def)
  have "take (length content - length pre - length (g @ a @ h) - 1 - length post)
          (drop (length pre + length (g @ a @ h)) content) = c"
    unfolding e by simp
  with assms(1,3) show ?thesis by (simp add: old_list_text_def)
qed

lemma well_formedD:
  assumes "well_formed role content"
  shows "\<exists>pre g a h c post. located role content pre g a h c post \<and> CHR ''}'' \<notin> set c \<and>
           rx_exec (update_rx role) [] content = Some (pre, post, [g @ a @ h, '']''])"
proof -
  from assms obtain res where r: "rx_exec (update_rx role) [] content = Some res"
    by (cases "rx_exec (update_rx role) [] content") (auto simp: well_formed_def old_list_text_def)
  obtain pre post caps where res: "res = (pre, post, caps)" by (cases res) auto
  from update_located[OF r[unfolded res]] obtain g a h c where
    l: "located role content pre g a h c post" and caps: "caps = [g @ a @ h, '']'']" by blast
  from old_list_text_located[OF r[unfolded res] l caps] assms have c: "CHR ''}'' \<notin> set c"
    by (simp add: well_formed_def)
  show ?thesis
  proof (intro exI conjI)
    show "located role content pre g a h c post" by (rule l)
    show "CHR ''}'' \<notin> set c" by (rule c)
    show "rx_exec (update_rx role) [] content = Some (pre, post, [g @ a @ h, '']''])"
      using r res caps by simp
  qed
qed

lemma update_no_match:
  "rx_exec (update_rx role) [] content = None \<Longrightarrow> updateWhitelistInContent content role uids = content"
  by (simp add: updateWhitelistInContent_def js_replace_def)

lemma update_match:
  assumes "rx_exec (update_rx role) [] content = Some (pre, post, [g1, g2])"
    and "list_all digit_string uids"
  shows "updateWhitelistInContent content role uids = pre @ g1 @ format_uids uids @ g2 @ post"
proof -
  from format_uids_hd obtain r where r: "format_uids uids = LF # r" by blast
  have "CHR ''$'' \<notin> set (format_uids uids)"
    using assms(2) by (rule format_uids_avoids) (simp_all add: digit_chars)
  with r have "CHR ''$'' \<notin> set r" by simp
  from template_expansion[OF this] show ?thesis
    using assms(1) r by (simp add: updateWhitelistInContent_def js_replace_def)
qed

lemma roundtrip_core:
  assumes "role \<in> set validRoles" "well_formed role content" "list_all digit_string uids"
  shows "parseContent (updateWhitelistInContent content role uids)
           = Inr (\<lambda>r. if r \<in> set validRoles
                       then Some (role_uids r (updateWhitelistInContent content role uids)) else None)"
    and "role_uids role (updateWhitelistInContent content role uids) = uids"
proof -
  show "parseContent (updateWhitelistInContent content role uids)
           = Inr (\<lambda>r. if r \<in> set validRoles
                       then Some (role_uids r (updateWhitelistInContent content role uids)) else None)"
    by (rule parseContent_eq)
  from well_formedD[OF assms(2)] obtain pre g a h c post where
    l: "located role content pre g a h c post" and c: "CHR ''}'' \<notin> set c"
    and e: "rx_exec (update_rx role) [] content = Some (pre, post, [g @ a @ h, '']''])" by blast
  let ?c' = "format_uids uids"
  have u: "updateWhitelistInContent content role uids = pre @ g @ a @ h @ ?c' @ '']'' @ post"
    using update_match[OF e assms(3)] by simp
  have 1: "?c' \<noteq> []" by (rule format_uids_nonempty)
  have 2: "CHR '']'' \<notin> set ?c'" using assms(3) by (rule format_uids_avoids) (simp_all add: digit_chars)
  have 3: "CHR ''['' \<notin> set ?c'" using assms(3) by (rule format_uids_avoids) (simp_all add: digit_chars)
  from parse_after_update[OF l c 1 2 3 validRoles_no_bracket[OF assms(1)]]
  have "js_match (parse_rx role) (updateWhitelistInContent content role uids) = Some [?c']"
    unfolding u by (simp add: js_match_def)
  then have "role_uids role (updateWhitelistInContent content role uids) = extract_uids ?c'"
    by (rule role_uids_Some)
  with extract_format[OF assms(3)]
  show "role_uids role (updateWhitelistInContent content role uids) = uids" by simp
qed

lemma extract_uids_digits: "list_all digit_string (extract_uids s)"
  by (simp add: extract_uids_clean list_all_iff)

lemma role_uids_digits: "list_all digit_string (role_uids role content)"
  by (auto simp: role_uids_def extract_uids_digits split: option.splits list.splits)

lemma steam_uid_digit_string: "steam_uid uid \<Longrightarrow> digit_string uid"
  by (auto simp: steam_uid_def digit_string_def)

lemma head_text:
  assumes "frames (guard_rx role) g" "CHR ''}'' \<notin> set a" "frames return_rx h"
  shows "rx_full (head_rx role) (g @ a @ h)"
proof -
  from assms(1) have "rx_match (guard_rx role) (g @ (a @ h), []) = [(a @ h, [])]" by (rule framesD)
  from head_candidates[OF this]
  have m: "rx_match (head_rx role) (g @ a @ h, [])
      = concat (map (\<lambda>u. rx_match return_rx (u, [])) (star_res (\<lambda>x. x \<noteq> CHR ''}'') (a @ h)))"
    by simp
  have "h \<in> set (star_res (\<lambda>x. x \<noteq> CHR ''}'') (a @ h))"
    using assms(2) by (intro star_res_member[OF refl]) (simp add: no_brace)
  moreover have "rx_match return_rx (h @ [], []) = [([], [])]" using assms(3) by (rule framesD)
  ultimately have "([], []) \<in> set (rx_match (head_rx role) (g @ a @ h, []))"
    unfolding m by force
  then show ?thesis by (force simp: rx_full_def list_ex_iff)
qed

subsection \<open>addUid and removeUid on an existing file\<close>

lemma addUid_eq:
  assumes "toUpperCase role \<in> set validRoles" "steam_uid uid"
  shows "addUid role uid (Some content) =
     (if uid \<in> set (role_uids (toUpperCase role) content) then Inr (AlreadyWhitelisted, Some content)
      else Inr (Added, Some (updateWhitelistInContent content (toUpperCase role)
                               (role_uids (toUpperCase role) content @ [uid]))))"
  using assms by (simp add: addUid_def uid_format readFile_def parseContent_eq Let_def)

lemma removeUid_eq:
  assumes "toUpperCase role \<in> set validRoles"
  shows "removeUid role uid (Some content) =
     (if uid \<notin> set (role_uids (toUpperCase role) content) then Inr (NotWhitelisted, Some content)
      else Inr (Removed, Some (updateWhitelistInContent content (toUpperCase role)
                                 (filter (\<lambda>u. u \<noteq> uid) (role_uids (toUpperCase role) content)))))"
  using assms by (simp add: removeUid_def readFile_def parseContent_eq Let_def)

lemma update_frame:
  assumes "list_all digit_string uids"
  shows "(rx_exec (update_rx role) [] content = None \<and>
            updateWhitelistInContent content role uids = content) \<or>
         (\<exists>pre g1 old post.
            content = pre @ g1 @ old @ '']'' @ post \<and>
            updateWhitelistInContent content role uids = pre @ g1 @ format_uids uids @ '']'' @ post \<and>
            rx_full (head_rx role) g1 \<and> CHR '']'' \<notin> set old)"
proof (cases "rx_exec (update_rx role) [] content")
  case None
  then show ?thesis by (simp add: update_no_match)
next
  case (Some res)
  obtain pre post caps where res: "res = (pre, post, caps)" by (cases res) auto
  from update_located[OF Some[unfolded res]] obtain g a h c where
    l: "located role content pre g a h c post" and caps: "caps = [g @ a @ h, '']'']" by blast
  from l have e: "content = pre @ (g @ a @ h) @ c @ '']'' @ post"
    and b: "blk role (g @ a @ h @ c @ '']'' @ post) g a h c post"
    unfolding located_def by simp_all
  from b have t: "rx_full (head_rx role) (g @ a @ h)" and c: "CHR '']'' \<notin> set c"
    unfolding blk_def using head_text by simp_all
  from Some res caps have "rx_exec (update_rx role) [] content = Some (pre, post, [g @ a @ h, '']''])"
    by simp
  from update_match[OF this assms]
  have u: "updateWhitelistInContent content role uids = pre @ (g @ a @ h) @ format_uids uids @ '']'' @ post"
    by simp
  have "\<exists>pre g1 old post.
            content = pre @ g1 @ old @ '']'' @ post \<and>
            updateWhitelistInContent content role uids = pre @ g1 @ format_uids uids @ '']'' @ post \<and>
            rx_full (head_rx role) g1 \<and> CHR '']'' \<notin> set old"
  proof (intro exI conjI)
    show "content = pre @ (g @ a @ h) @ c @ '']'' @ post" by (rule e)
    show "updateWhitelistInContent content role uids = pre @ (g @ a @ h) @ format_uids uids @ '']'' @ post"
      by (rule u)
    show "rx_full (head_rx role) (g @ a @ h)" by (rule t)
    show "CHR '']'' \<notin> set c" by (rule c)
  qed
  then show ?thesis ..
qed

subsection \<open>The role's own block\<close>

lemma det_full_frames:
  assumes "det r" "rx_full r g"
  shows "frames r g"
proof -
  from assms(2) obtain cs where m: "([], cs) \<in> set (rx_match r (g, []))"
    by (auto simp: rx_full_def list_ex_iff)
  then have "rx_match r (g, []) \<noteq> []" by auto
  from detD[OF assms(1) this] obtain g' t where
    g: "g = g' @ t" "frames r g'" "rx_match r (g, []) = [(t, [])]" by blast
  with m have "t = []" by simp
  with g show ?thesis by simp
qed

lemma absentD:
  "absent r pre t \<Longrightarrow> pre = b1 @ b2 \<Longrightarrow> b2 \<noteq> [] \<Longrightarrow> rx_match r (b2 @ t, []) = []"
proof (induction pre arbitrary: b1)
  case Nil
  then show ?case by simp
next
  case step: (Cons x xs)
  show ?case
  proof (cases b1)
    case Nil
    with step.prems have "b2 = x # xs" by simp
    with step.prems(1) show ?thesis by simp
  next
    case c: (Cons y ys)
    with step.prems have "absent r xs t" "xs = ys @ b2" by simp_all
    then show ?thesis using step.prems(3) by (rule step.IH)
  qed
qed

lemma update_guard_fail:
  assumes "rx_match (guard_rx role) (s, []) = []"
  shows "rx_match (update_rx role) (s, []) = []"
  using head_fail[OF assms] by (simp add: update_rx_def)

lemma return_head:
  assumes "frames return_rx h"
  shows "\<exists>h0. h = CHR ''_'' # h0 \<and> CHR ''_'' \<notin> set h0"
proof -
  let ?B = "seqs [Star Space, Lit ''='', Star Space, Lit ''['']"
  have e: "return_rx = Seq (Lit ''_return'') ?B" by (simp add: return_rx_def)
  from assms have "rx_match return_rx (h @ [], []) = [([], [])]" by (rule framesD)
  then have "([], []) \<in> set (rx_match return_rx (h, []))" by simp
  then have "([], []) \<in> set (rx_match (Seq (Lit ''_return'') ?B) (h, []))" by (simp only: e)
  then obtain u cu where 1: "(u, cu) \<in> set (rx_match (Lit ''_return'') (h, []))"
    and 2: "([], []) \<in> set (rx_match ?B (u, cu))"
    by (auto simp only: rx_match.simps set_concat set_map)
  from 1 have "take (length ''_return'') h = ''_return''" "u = drop (length ''_return'') h"
    by (auto split: if_splits)
  then have h: "h = ''_return'' @ u" by (metis append_take_drop_id)
  from rx_match_shape[OF 2] obtain w where w: "u = w @ []" "set w \<subseteq> alphabet ?B" by blast
  have "CHR ''_'' \<notin> alphabet ?B" by (simp add: is_space_def)
  with w have "CHR ''_'' \<notin> set u" by auto
  with h show ?thesis by simp
qed

lemma own_block_maximal:
  assumes g: "frames (guard_rx role) g" and h: "frames return_rx h"
    and body: "CHR ''}'' \<notin> set body" "CHR ''_'' \<notin> set body"
    and e: "CHR ''}'' \<notin> set e" "CHR ''_'' \<notin> set e"
    and B: "blk role (g @ note @ h @ body @ '']'' @ e @ ''}'' @ post) g' a' h' c' w'"
  shows "length a' \<le> length note"
proof (rule ccontr)
  assume "\<not> length a' \<le> length note"
  then have len: "length note < length a'" by simp
  from B have s: "g @ (note @ h @ body @ '']'' @ e @ ''}'' @ post) = g' @ (a' @ h' @ c' @ '']'' @ w')"
    and g': "frames (guard_rx role) g'" and a': "CHR ''}'' \<notin> set a'"
    and h': "frames return_rx h'"
    by (simp_all add: blk_def)
  from frames_unique[OF g g' s]
  have t: "a' @ (h' @ c' @ '']'' @ w') = note @ (h @ body @ '']'' @ e @ ''}'' @ post)" by simp
  from return_head[OF h] obtain h0 where h0: "h = CHR ''_'' # h0" "CHR ''_'' \<notin> set h0" by blast
  from return_head[OF h'] obtain h0' where h0': "h' = CHR ''_'' # h0'" by blast
  from t show False
  proof (cases rule: append_eq_cases)
    case (left us)
    with len obtain u us' where us: "us = u # us'" by (cases us) auto
    from left(1) a' us have nb: "CHR ''}'' \<notin> set us'" by simp
    from left(2) us h0 h0'
    have eq: "us' @ CHR ''_'' # (h0' @ c' @ '']'' @ w') = (h0 @ body @ '']'' @ e) @ CHR ''}'' # post"
      by simp
    have nu: "CHR ''_'' \<notin> set (h0 @ body @ '']'' @ e)" using h0(2) body(2) e(2) by simp
    from no_early_close[OF eq nu _ nb] show False by simp
  next
    case (right us)
    with len show False by simp
  qed
qed

lemma own_block_located:
  assumes "own_block role content pre g note h body e post"
  shows "located role content pre g note h body (e @ ''}'' @ post)"
proof -
  let ?m = "g @ note @ h @ body @ '']'' @ e @ ''}'' @ post"
  from assms have c: "content = pre @ ?m"
    and ab: "absent (guard_rx role) pre ?m"
    and g: "rx_full (guard_rx role) g" and h: "rx_full return_rx h"
    and n: "CHR ''}'' \<notin> set note"
    and b: "CHR '']'' \<notin> set body" "CHR ''}'' \<notin> set body" "CHR ''_'' \<notin> set body"
    and e: "CHR ''}'' \<notin> set e" "CHR ''_'' \<notin> set e"
    by (simp_all add: own_block_def)
  have fg: "frames (guard_rx role) g" using det_guard_rx g by (rule det_full_frames)
  have fh: "frames return_rx h" using det_return_rx h by (rule det_full_frames)
  have bl: "blk role ?m g note h body (e @ ''}'' @ post)"
    using fg fh n b(1) by (simp add: blk_def)
  have mx: "\<forall>g' a' h' c' w'. blk role ?m g' a' h' c' w' \<longrightarrow> length a' \<le> length note"
    using own_block_maximal[OF fg fh b(2,3) e] by blast
  have left: "\<forall>b1 b2. pre = b1 @ b2 \<and> b2 \<noteq> [] \<longrightarrow> rx_match (update_rx role) (b2 @ ?m, []) = []"
    using absentD[OF ab] update_guard_fail by blast
  show ?thesis unfolding located_def using c bl mx left by simp
qed

lemma located_exec:
  assumes L: "located role content pre g a h c post"
  shows "rx_exec (update_rx role) [] content = Some (pre, post, [g @ a @ h, '']''])"
proof -
  let ?m = "g @ a @ h @ c @ '']'' @ post"
  from L have c: "content = pre @ ?m" and b: "blk role ?m g a h c post"
    and mxa: "\<forall>g' a' h' c' w'. blk role ?m g' a' h' c' w' \<longrightarrow> length a' \<le> length a"
    and na: "\<forall>b1 b2. pre = b1 @ b2 \<and> b2 \<noteq> [] \<longrightarrow> rx_match (update_rx role) (b2 @ ?m, []) = []"
    unfolding located_def by blast+
  have n: "rx_match (update_rx role) (b2 @ ?m, []) = []" if "pre = b1 @ b2" "b2 \<noteq> []" for b1 b2
    using na that by blast
  from update_some[OF b] obtain w caps rest where
    m: "rx_match (update_rx role) (?m, []) = (w, caps) # rest"
    by (cases "rx_match (update_rx role) (?m, [])") auto
  from update_first[OF m] obtain g' a' h' c' where
    b': "blk role ?m g' a' h' c' w" and caps: "caps = [g' @ a' @ h', '']'']"
    and mx': "\<forall>g'' a'' h'' c'' w''. blk role ?m g'' a'' h'' c'' w'' \<longrightarrow> length a'' \<le> length a'"
    by blast
  from mxa b' have "length a' \<le> length a" by blast
  moreover from mx' b have "length a \<le> length a'" by blast
  ultimately have "length a = length a'" by simp
  from blk_unique[OF b b' this] have "g = g'" "a = a'" "h = h'" "post = w" by simp_all
  with m caps have m': "rx_match (update_rx role) (?m, []) = (post, [g @ a @ h, '']'']) # rest"
    by simp
  from rx_exec_intro[where r = "update_rx role" and pre = "[]" and b' = pre and m = ?m, OF n m']
  show ?thesis using c by simp
qed

lemma own_block_update:
  assumes "own_block role content pre g note h body e post" "list_all digit_string uids"
  shows "updateWhitelistInContent content role uids
           = pre @ g @ note @ h @ format_uids uids @ '']'' @ e @ ''}'' @ post"
  using update_match[OF located_exec[OF own_block_located[OF assms(1)]] assms(2)] by simp

text \<open>A text that holds the role's own block is well-formed for the role.\<close>

lemma own_block_well_formed:
  assumes "own_block role content pre g note h body e post"
  shows "well_formed role content"
proof -
  from assms have b: "CHR ''}'' \<notin> set body" by (simp add: own_block_def)
  note l = own_block_located[OF assms]
  from old_list_text_located[OF located_exec[OF l] l refl] b show ?thesis
    by (simp add: well_formed_def)
qed

section \<open>The round trip\<close>

text \<open>
  C1 (as amended). For a configured role, a text that is well-formed for the role (the
  pattern of updateWhitelistInContent finds a block for the role, and the list text
  between its brackets holds no closing brace) and a list of non-empty digit strings:
  parsing what updateWhitelistInContent writes gives exactly that list, in order, as the
  role's entry.
\<close>

theorem roundtrip:
  assumes "role \<in> set validRoles"
    and "well_formed role content"
    and "list_all digit_string uids"
  shows "\<exists>whitelists. parseContent (updateWhitelistInContent content role uids) = Inr whitelists \<and>
           whitelists role = Some uids"
  using roundtrip_core[OF assms] assms(1) by simp

theorem roundtrip_witness:
  "''S3'' \<in> set validRoles \<and> well_formed ''S3'' small_file \<and>
   list_all digit_string [''76561198000000007'', ''42''] \<and>
   (\<exists>whitelists.
      parseContent (updateWhitelistInContent small_file ''S3'' [''76561198000000007'', ''42''])
        = Inr whitelists \<and>
      whitelists ''S3'' = Some [''76561198000000007'', ''42''])"
proof -
  have 1: "''S3'' \<in> set validRoles" by code_simp
  have 2: "well_formed ''S3'' small_file" by code_simp
  have 3: "list_all digit_string [''76561198000000007'', ''42'']" by code_simp
  from roundtrip[OF 1 2 3] 1 2 3 show ?thesis by blast
qed

text \<open>
  The law does not hold for every text in the block format of whitelist.sqf. In
  \<open>noted_file\<close> the comment of the ADMIN block holds a pair of braces between the guard and
  the assignment; the text is not well-formed for ADMIN, updateWhitelistInContent leaves it
  as it is, and parsing the result gives the empty list for ADMIN instead of the list
  that was written.
\<close>

theorem roundtrip_counterexample:
  "''ADMIN'' \<in> set validRoles \<and> list_all digit_string [''76561198000000007''] \<and>
   \<not> well_formed ''ADMIN'' noted_file \<and>
   updateWhitelistInContent noted_file ''ADMIN'' [''76561198000000007''] = noted_file \<and>
   (case parseContent (updateWhitelistInContent noted_file ''ADMIN'' [''76561198000000007'']) of
      Inl err \<Rightarrow> None
    | Inr whitelists \<Rightarrow> whitelists ''ADMIN'') = Some []"
proof -
  have 1: "''ADMIN'' \<in> set validRoles" by code_simp
  have 2: "list_all digit_string [''76561198000000007'']" by code_simp
  have 3: "\<not> well_formed ''ADMIN'' noted_file" by code_simp
  have 4: "updateWhitelistInContent noted_file ''ADMIN'' [''76561198000000007''] = noted_file"
    by code_simp
  have 5: "role_uids ''ADMIN'' noted_file = []" by code_simp
  have 6: "(case parseContent (updateWhitelistInContent noted_file ''ADMIN'' [''76561198000000007'']) of
      Inl err \<Rightarrow> None
    | Inr whitelists \<Rightarrow> whitelists ''ADMIN'') = Some []"
    unfolding 4 parseContent_eq using 1 5 by simp
  from 1 2 3 4 6 show ?thesis by blast
qed

section \<open>addUid\<close>

text \<open>
  C2 (as amended). On an existing file, addUid replies InvalidRole when the upper-case
  form of the role is not a configured code; else InvalidIdentifierFormat when the
  identifier is not 17 digits; else AlreadyWhitelisted when the identifier is in the
  role's list; each of these leaves the file as it is. Otherwise, when the text is
  well-formed for the role, it writes the list with the identifier appended at the end
  and replies with success: the role's list is then the old list followed by the
  identifier, which occurs in it once, and a second addUid with the same arguments
  replies AlreadyWhitelisted.
\<close>

theorem addUid_spec:
  "(toUpperCase role \<notin> set validRoles \<longrightarrow>
      addUid role uid (Some content) = Inr (InvalidRole, Some content)) \<and>
   (toUpperCase role \<in> set validRoles \<and> \<not> steam_uid uid \<longrightarrow>
      addUid role uid (Some content) = Inr (InvalidIdentifierFormat, Some content)) \<and>
   (toUpperCase role \<in> set validRoles \<and> steam_uid uid \<and>
    getUids role (Some content) = Inr uids \<and> uid \<in> set uids \<longrightarrow>
      addUid role uid (Some content) = Inr (AlreadyWhitelisted, Some content)) \<and>
   (toUpperCase role \<in> set validRoles \<and> steam_uid uid \<and>
    getUids role (Some content) = Inr uids \<and> uid \<notin> set uids \<and>
    well_formed (toUpperCase role) content \<longrightarrow>
      (\<exists>content'.
         addUid role uid (Some content) = Inr (Added, Some content') \<and>
         content' = updateWhitelistInContent content (toUpperCase role) (uids @ [uid]) \<and>
         getUids role (Some content') = Inr (uids @ [uid]) \<and>
         count_list (uids @ [uid]) uid = 1 \<and>
         addUid role uid (Some content') = Inr (AlreadyWhitelisted, Some content')))"
proof -
  let ?R = "toUpperCase role"
  have 1: "?R \<notin> set validRoles \<longrightarrow> addUid role uid (Some content) = Inr (InvalidRole, Some content)"
    by (simp add: addUid_def)
  have 2: "?R \<in> set validRoles \<and> \<not> steam_uid uid \<longrightarrow>
      addUid role uid (Some content) = Inr (InvalidIdentifierFormat, Some content)"
    by (simp add: addUid_def uid_format)
  have 3: "?R \<in> set validRoles \<and> steam_uid uid \<and>
      getUids role (Some content) = Inr uids \<and> uid \<in> set uids \<longrightarrow>
      addUid role uid (Some content) = Inr (AlreadyWhitelisted, Some content)"
    by (auto simp: addUid_eq getUids_eq)
  have 4: "\<exists>content'.
         addUid role uid (Some content) = Inr (Added, Some content') \<and>
         content' = updateWhitelistInContent content ?R (uids @ [uid]) \<and>
         getUids role (Some content') = Inr (uids @ [uid]) \<and>
         count_list (uids @ [uid]) uid = 1 \<and>
         addUid role uid (Some content') = Inr (AlreadyWhitelisted, Some content')"
    if v: "?R \<in> set validRoles" and s: "steam_uid uid"
      and g: "getUids role (Some content) = Inr uids" and n: "uid \<notin> set uids"
      and w: "well_formed ?R content"
  proof -
    let ?c' = "updateWhitelistInContent content ?R (uids @ [uid])"
    from g v have u: "uids = role_uids ?R content" by (simp add: getUids_eq)
    have d: "list_all digit_string (uids @ [uid])"
      unfolding u using role_uids_digits steam_uid_digit_string[OF s] by simp
    from roundtrip_core(2)[OF v w d] have r: "role_uids ?R ?c' = uids @ [uid]" .
    have a: "addUid role uid (Some content) = Inr (Added, Some ?c')"
      using n u by (simp add: addUid_eq[OF v s])
    have b: "getUids role (Some ?c') = Inr (uids @ [uid])"
      using v r by (simp add: getUids_eq)
    have c: "count_list (uids @ [uid]) uid = 1"
      using n by (simp add: count_list_0_iff)
    have e: "addUid role uid (Some ?c') = Inr (AlreadyWhitelisted, Some ?c')"
      using r by (simp add: addUid_eq[OF v s])
    show ?thesis
    proof (intro exI conjI)
      show "addUid role uid (Some content) = Inr (Added, Some ?c')" by (rule a)
      show "?c' = updateWhitelistInContent content ?R (uids @ [uid])" ..
      show "getUids role (Some ?c') = Inr (uids @ [uid])" by (rule b)
      show "count_list (uids @ [uid]) uid = 1" by (rule c)
      show "addUid role uid (Some ?c') = Inr (AlreadyWhitelisted, Some ?c')" by (rule e)
    qed
  qed
  from 1 2 3 4 show ?thesis by blast
qed

theorem addUid_spec_witness:
  "toUpperCase ''s3'' \<in> set validRoles \<and> steam_uid ''76561198000000007'' \<and>
   getUids ''s3'' (Some small_file) = Inr [''76561198000000001'', ''76561198000000002''] \<and>
   well_formed (toUpperCase ''s3'') small_file \<and>
   (\<exists>content'.
      addUid ''s3'' ''76561198000000007'' (Some small_file) = Inr (Added, Some content') \<and>
      getUids ''s3'' (Some content')
        = Inr [''76561198000000001'', ''76561198000000002'', ''76561198000000007''] \<and>
      addUid ''s3'' ''76561198000000007'' (Some content') = Inr (AlreadyWhitelisted, Some content'))"
proof -
  have 1: "toUpperCase ''s3'' \<in> set validRoles" by code_simp
  have 2: "steam_uid ''76561198000000007''" by code_simp
  have 3: "getUids ''s3'' (Some small_file) = Inr [''76561198000000001'', ''76561198000000002'']"
    by code_simp
  have 4: "''76561198000000007'' \<notin> set [''76561198000000001'', ''76561198000000002'']" by simp
  have 5: "well_formed (toUpperCase ''s3'') small_file" by code_simp
  from addUid_spec[of "''s3''" "''76561198000000007''" small_file
      "[''76561198000000001'', ''76561198000000002'']"] 1 2 3 4 5
  obtain content' where
    "addUid ''s3'' ''76561198000000007'' (Some small_file) = Inr (Added, Some content')"
    "getUids ''s3'' (Some content')
      = Inr ([''76561198000000001'', ''76561198000000002''] @ [''76561198000000007''])"
    "addUid ''s3'' ''76561198000000007'' (Some content') = Inr (AlreadyWhitelisted, Some content')"
    by blast
  with 1 2 3 5 show ?thesis by auto
qed

text \<open>Without well-formedness the claim as stated fails: on \<open>braced_file\<close> the
  identifier goes into the first list, the parse of the result reads the second list,
  and the second addUid succeeds again.\<close>

theorem addUid_spec_counterexample:
  "toUpperCase ''S3'' \<in> set validRoles \<and> steam_uid ''76561198000000003'' \<and>
   getUids ''S3'' (Some braced_file) = Inr [''76561198000000001''] \<and>
   addUid ''S3'' ''76561198000000003'' (Some braced_file) = Inr (Added, Some braced_file_added) \<and>
   getUids ''S3'' (Some braced_file_added) = Inr [''76561198000000001''] \<and>
   addUid ''S3'' ''76561198000000003'' (Some braced_file_added)
     \<noteq> Inr (AlreadyWhitelisted, Some braced_file_added)"
proof -
  have 1: "toUpperCase ''S3'' \<in> set validRoles" by code_simp
  have 2: "steam_uid ''76561198000000003''" by code_simp
  have 3: "getUids ''S3'' (Some braced_file) = Inr [''76561198000000001'']" by code_simp
  have 4: "addUid ''S3'' ''76561198000000003'' (Some braced_file) = Inr (Added, Some braced_file_added)"
    by code_simp
  have 5: "getUids ''S3'' (Some braced_file_added) = Inr [''76561198000000001'']" by code_simp
  have 6: "addUid ''S3'' ''76561198000000003'' (Some braced_file_added)
     \<noteq> Inr (AlreadyWhitelisted, Some braced_file_added)"
    using 1 2 5 by (simp add: addUid_eq getUids_eq)
  from 1 2 3 4 5 6 show ?thesis by blast
qed

section \<open>removeUid\<close>

text \<open>
  C3 (as amended). On an existing file, removeUid replies InvalidRole when the upper-case
  form of the role is not a configured code; else NotWhitelisted when the identifier is
  not in the role's list; both leave the file as it is. Otherwise, when the text is
  well-formed for the role, it writes the list without the identifier and replies with
  success: the role's list is then the old list without the identifier, the other
  entries in their order, and a second removeUid with the same arguments replies
  NotWhitelisted.
\<close>

theorem removeUid_spec:
  "(toUpperCase role \<notin> set validRoles \<longrightarrow>
      removeUid role uid (Some content) = Inr (InvalidRole, Some content)) \<and>
   (toUpperCase role \<in> set validRoles \<and>
    getUids role (Some content) = Inr uids \<and> uid \<notin> set uids \<longrightarrow>
      removeUid role uid (Some content) = Inr (NotWhitelisted, Some content)) \<and>
   (toUpperCase role \<in> set validRoles \<and>
    getUids role (Some content) = Inr uids \<and> uid \<in> set uids \<and>
    well_formed (toUpperCase role) content \<longrightarrow>
      (\<exists>content'.
         removeUid role uid (Some content) = Inr (Removed, Some content') \<and>
         content' = updateWhitelistInContent content (toUpperCase role) (filter (\<lambda>u. u \<noteq> uid) uids) \<and>
         getUids role (Some content') = Inr (filter (\<lambda>u. u \<noteq> uid) uids) \<and>
         removeUid role uid (Some content') = Inr (NotWhitelisted, Some content')))"
proof -
  let ?R = "toUpperCase role"
  have 1: "?R \<notin> set validRoles \<longrightarrow> removeUid role uid (Some content) = Inr (InvalidRole, Some content)"
    by (simp add: removeUid_def)
  have 2: "?R \<in> set validRoles \<and> getUids role (Some content) = Inr uids \<and> uid \<notin> set uids \<longrightarrow>
      removeUid role uid (Some content) = Inr (NotWhitelisted, Some content)"
    by (auto simp: removeUid_eq getUids_eq)
  have 3: "\<exists>content'.
         removeUid role uid (Some content) = Inr (Removed, Some content') \<and>
         content' = updateWhitelistInContent content ?R (filter (\<lambda>u. u \<noteq> uid) uids) \<and>
         getUids role (Some content') = Inr (filter (\<lambda>u. u \<noteq> uid) uids) \<and>
         removeUid role uid (Some content') = Inr (NotWhitelisted, Some content')"
    if v: "?R \<in> set validRoles" and g: "getUids role (Some content) = Inr uids"
      and i: "uid \<in> set uids" and w: "well_formed ?R content"
  proof -
    let ?l = "filter (\<lambda>u. u \<noteq> uid) uids"
    let ?c' = "updateWhitelistInContent content ?R ?l"
    from g v have u: "uids = role_uids ?R content" by (simp add: getUids_eq)
    have d: "list_all digit_string ?l"
      unfolding u using role_uids_digits[of ?R content] by (simp add: list_all_iff)
    from roundtrip_core(2)[OF v w d] have r: "role_uids ?R ?c' = ?l" .
    have a: "removeUid role uid (Some content) = Inr (Removed, Some ?c')"
      using i u by (simp add: removeUid_eq[OF v])
    have b: "getUids role (Some ?c') = Inr ?l"
      using v r by (simp add: getUids_eq)
    have e: "removeUid role uid (Some ?c') = Inr (NotWhitelisted, Some ?c')"
      using r by (simp add: removeUid_eq[OF v])
    show ?thesis
    proof (intro exI conjI)
      show "removeUid role uid (Some content) = Inr (Removed, Some ?c')" by (rule a)
      show "?c' = updateWhitelistInContent content ?R ?l" ..
      show "getUids role (Some ?c') = Inr ?l" by (rule b)
      show "removeUid role uid (Some ?c') = Inr (NotWhitelisted, Some ?c')" by (rule e)
    qed
  qed
  from 1 2 3 show ?thesis by blast
qed

theorem removeUid_spec_witness:
  "toUpperCase ''s3'' \<in> set validRoles \<and>
   getUids ''s3'' (Some small_file) = Inr [''76561198000000001'', ''76561198000000002''] \<and>
   well_formed (toUpperCase ''s3'') small_file \<and>
   (\<exists>content'.
      removeUid ''s3'' ''76561198000000001'' (Some small_file) = Inr (Removed, Some content') \<and>
      getUids ''s3'' (Some content') = Inr [''76561198000000002''] \<and>
      removeUid ''s3'' ''76561198000000001'' (Some content') = Inr (NotWhitelisted, Some content'))"
proof -
  have 1: "toUpperCase ''s3'' \<in> set validRoles" by code_simp
  have 3: "getUids ''s3'' (Some small_file) = Inr [''76561198000000001'', ''76561198000000002'']"
    by code_simp
  have 4: "''76561198000000001'' \<in> set [''76561198000000001'', ''76561198000000002'']" by simp
  have 5: "well_formed (toUpperCase ''s3'') small_file" by code_simp
  from removeUid_spec[of "''s3''" "''76561198000000001''" small_file
      "[''76561198000000001'', ''76561198000000002'']"] 1 3 4 5
  obtain content' where
    "removeUid ''s3'' ''76561198000000001'' (Some small_file) = Inr (Removed, Some content')"
    "getUids ''s3'' (Some content')
      = Inr (filter (\<lambda>u. u \<noteq> ''76561198000000001'') [''76561198000000001'', ''76561198000000002''])"
    "removeUid ''s3'' ''76561198000000001'' (Some content') = Inr (NotWhitelisted, Some content')"
    by blast
  with 1 3 5 show ?thesis by auto
qed

text \<open>Without well-formedness the claim as stated fails: on \<open>braced_file\<close> removeUid
  empties the first list, the parse of the result reads the second list, which still
  holds the identifier, and the second removeUid succeeds again.\<close>

theorem removeUid_spec_counterexample:
  "toUpperCase ''S3'' \<in> set validRoles \<and>
   getUids ''S3'' (Some braced_file) = Inr [''76561198000000001''] \<and>
   removeUid ''S3'' ''76561198000000001'' (Some braced_file) = Inr (Removed, Some braced_file_removed) \<and>
   getUids ''S3'' (Some braced_file_removed) = Inr [''76561198000000001''] \<and>
   removeUid ''S3'' ''76561198000000001'' (Some braced_file_removed)
     \<noteq> Inr (NotWhitelisted, Some braced_file_removed)"
proof -
  have 1: "toUpperCase ''S3'' \<in> set validRoles" by code_simp
  have 3: "getUids ''S3'' (Some braced_file) = Inr [''76561198000000001'']" by code_simp
  have 4: "removeUid ''S3'' ''76561198000000001'' (Some braced_file)
      = Inr (Removed, Some braced_file_removed)" by code_simp
  have 5: "getUids ''S3'' (Some braced_file_removed) = Inr [''76561198000000001'']" by code_simp
  have 6: "removeUid ''S3'' ''76561198000000001'' (Some braced_file_removed)
     \<noteq> Inr (NotWhitelisted, Some braced_file_removed)"
    using 1 5 by (simp add: removeUid_eq getUids_eq)
  from 1 3 4 5 6 show ?thesis by blast
qed

section \<open>getUids\<close>

text \<open>
  C4 (as amended). getUids has no role check: for a role argument whose upper-case form is
  not a configured code it returns the empty list, with no error; for one whose
  upper-case form is a configured code it returns the list parseContent holds for that
  code. It fails only when the file is missing.
\<close>

theorem getUids_lenient:
  "getUids role None = Inl File_not_found \<and>
   (\<exists>whitelists. parseContent content = Inr whitelists \<and>
      (toUpperCase role \<in> set validRoles \<longrightarrow>
         (\<exists>uids. whitelists (toUpperCase role) = Some uids \<and> getUids role (Some content) = Inr uids)) \<and>
      (toUpperCase role \<notin> set validRoles \<longrightarrow> getUids role (Some content) = Inr []))"
  by (simp add: getUids_def readFile_def parseContent_eq)

theorem getUids_lenient_witness:
  "toUpperCase ''s3'' \<in> set validRoles \<and>
   (\<exists>whitelists. parseContent small_file = Inr whitelists \<and>
      whitelists ''S3'' = Some [''76561198000000001'', ''76561198000000002'']) \<and>
   getUids ''s3'' (Some small_file) = Inr [''76561198000000001'', ''76561198000000002'']"
proof -
  have v: "toUpperCase ''s3'' \<in> set validRoles" by code_simp
  have u: "toUpperCase ''s3'' = ''S3''" by code_simp
  have g: "getUids ''s3'' (Some small_file) = Inr [''76561198000000001'', ''76561198000000002'']"
    by code_simp
  from getUids_lenient[of "''s3''" small_file] v obtain w uids where
    "parseContent small_file = Inr w" "w (toUpperCase ''s3'') = Some uids"
    "getUids ''s3'' (Some small_file) = Inr uids" by blast
  with g u v show ?thesis by auto
qed

theorem getUids_unknown_role_counterexample:
  "toUpperCase ''BOGUS_ROLE'' \<notin> set validRoles \<and> getUids ''BOGUS_ROLE'' (Some small_file) = Inr []"
  by code_simp

section \<open>Only the list text changes\<close>

text \<open>
  C5 (as amended). When addUid or removeUid succeeds for a role, the text it writes is
  the text it read with at most one stretch replaced: either nothing matched and the two
  are equal, or the file is \<open>pre\<close>, a text \<open>g1\<close> that the head of the role's pattern matches
  (the role's guard, a stretch without a closing brace, the assignment up to the opening
  bracket), the old list text, the closing bracket and \<open>post\<close>, and the new file differs
  only in the list text. When the role's own block stands in the text (\<open>own_block\<close>: the
  guard occurs nowhere before it, and no other guard or assignment stands inside it), the
  replaced stretch is the list text of that block, so all other text, every comment and
  every block before or after the role's block, is in the new text as it was.
\<close>

theorem surgical_replace:
  assumes "addUid role uid (Some content) = Inr (Added, Some content') \<or>
           removeUid role uid (Some content) = Inr (Removed, Some content')"
  shows "((rx_exec (update_rx (toUpperCase role)) [] content = None \<and> content' = content) \<or>
          (\<exists>pre g1 old new post.
             content = pre @ g1 @ old @ '']'' @ post \<and>
             content' = pre @ g1 @ new @ '']'' @ post \<and>
             rx_full (head_rx (toUpperCase role)) g1 \<and>
             CHR '']'' \<notin> set old \<and> CHR '']'' \<notin> set new)) \<and>
         (own_block (toUpperCase role) content pre g a h body e post \<longrightarrow>
            (\<exists>uids. list_all digit_string uids \<and>
               content' = pre @ g @ a @ h @ format_uids uids @ '']'' @ e @ ''}'' @ post))"
proof -
  let ?R = "toUpperCase role"
  have "\<exists>uids. list_all digit_string uids \<and> content' = updateWhitelistInContent content ?R uids"
    using assms
  proof
    assume a: "addUid role uid (Some content) = Inr (Added, Some content')"
    then have v: "?R \<in> set validRoles" and s: "steam_uid uid"
      by (auto simp: addUid_def uid_format split: if_splits)
    from a have "content' = updateWhitelistInContent content ?R (role_uids ?R content @ [uid])"
      unfolding addUid_eq[OF v s] by (simp split: if_splits)
    moreover have "list_all digit_string (role_uids ?R content @ [uid])"
      using role_uids_digits steam_uid_digit_string[OF s] by simp
    ultimately show ?thesis by blast
  next
    assume r: "removeUid role uid (Some content) = Inr (Removed, Some content')"
    then have v: "?R \<in> set validRoles"
      by (auto simp: removeUid_def split: if_splits)
    from r have "content' = updateWhitelistInContent content ?R
        (filter (\<lambda>u. u \<noteq> uid) (role_uids ?R content))"
      unfolding removeUid_eq[OF v] by (simp split: if_splits)
    moreover have "list_all digit_string (filter (\<lambda>u. u \<noteq> uid) (role_uids ?R content))"
      using role_uids_digits[of ?R content] by (simp add: list_all_iff)
    ultimately show ?thesis by blast
  qed
  then obtain uids where d: "list_all digit_string uids"
    and c': "content' = updateWhitelistInContent content ?R uids" by blast
  have n: "CHR '']'' \<notin> set (format_uids uids)"
    using d by (rule format_uids_avoids) (simp_all add: digit_chars)
  have A: "(rx_exec (update_rx ?R) [] content = None \<and> content' = content) \<or>
          (\<exists>pre g1 old new post.
             content = pre @ g1 @ old @ '']'' @ post \<and>
             content' = pre @ g1 @ new @ '']'' @ post \<and>
             rx_full (head_rx ?R) g1 \<and>
             CHR '']'' \<notin> set old \<and> CHR '']'' \<notin> set new)"
    using update_frame[OF d, of ?R content]
  proof
    assume "rx_exec (update_rx ?R) [] content = None \<and> updateWhitelistInContent content ?R uids = content"
    with c' show ?thesis by simp
  next
    assume "\<exists>pre g1 old post.
            content = pre @ g1 @ old @ '']'' @ post \<and>
            updateWhitelistInContent content ?R uids = pre @ g1 @ format_uids uids @ '']'' @ post \<and>
            rx_full (head_rx ?R) g1 \<and> CHR '']'' \<notin> set old"
    then obtain pre g1 old post where
      f: "content = pre @ g1 @ old @ '']'' @ post"
      "updateWhitelistInContent content ?R uids = pre @ g1 @ format_uids uids @ '']'' @ post"
      "rx_full (head_rx ?R) g1" "CHR '']'' \<notin> set old" by blast
    have "\<exists>pre g1 old new post.
            content = pre @ g1 @ old @ '']'' @ post \<and>
            content' = pre @ g1 @ new @ '']'' @ post \<and>
            rx_full (head_rx ?R) g1 \<and> CHR '']'' \<notin> set old \<and> CHR '']'' \<notin> set new"
    proof (intro exI conjI)
      show "content = pre @ g1 @ old @ '']'' @ post" by (rule f(1))
      show "content' = pre @ g1 @ format_uids uids @ '']'' @ post" using c' f(2) by simp
      show "rx_full (head_rx ?R) g1" by (rule f(3))
      show "CHR '']'' \<notin> set old" by (rule f(4))
      show "CHR '']'' \<notin> set (format_uids uids)" by (rule n)
    qed
    then show ?thesis ..
  qed
  have B: "own_block ?R content pre g a h body e post \<longrightarrow>
            (\<exists>uids. list_all digit_string uids \<and>
               content' = pre @ g @ a @ h @ format_uids uids @ '']'' @ e @ ''}'' @ post)"
  proof
    assume "own_block ?R content pre g a h body e post"
    from own_block_update[OF this d] c' d
    show "\<exists>uids. list_all digit_string uids \<and>
               content' = pre @ g @ a @ h @ format_uids uids @ '']'' @ e @ ''}'' @ post"
      by blast
  qed
  from A B show ?thesis ..
qed

theorem surgical_replace_witness:
  "addUid ''admin'' ''76561198000000007'' (Some shipped_file)
     = Inr (Added, Some (shipped (format_uids [''76561198000000001'', ''76561198000000007'']))) \<and>
   own_block (toUpperCase ''admin'') shipped_file shipped_head
     (''if (_type isEqualTo '' @ [SQ] @ ''ADMIN'' @ [SQ] @ '') then {'')
     ([LF, TAB] @ ''/*/ Admin UIDs. /*/'' @ [LF, TAB]) ''_return = [''
     ([LF, TAB, TAB] @ quoted ''76561198000000001'' @ [LF, TAB]) ('';'' @ [LF]) ('';'' @ [LF]) \<and>
   rx_exec (update_rx (toUpperCase ''admin'')) [] shipped_file \<noteq> None \<and>
   (\<exists>pre g1 old new post.
      shipped_file = pre @ g1 @ old @ '']'' @ post \<and>
      shipped (format_uids [''76561198000000001'', ''76561198000000007''])
        = pre @ g1 @ new @ '']'' @ post \<and>
      rx_full (head_rx (toUpperCase ''admin'')) g1) \<and>
   (\<exists>uids. list_all digit_string uids \<and>
      shipped (format_uids [''76561198000000001'', ''76561198000000007''])
        = shipped_head @ (''if (_type isEqualTo '' @ [SQ] @ ''ADMIN'' @ [SQ] @ '') then {'')
            @ ([LF, TAB] @ ''/*/ Admin UIDs. /*/'' @ [LF, TAB]) @ ''_return = [''
            @ format_uids uids @ '']'' @ ('';'' @ [LF]) @ ''}'' @ ('';'' @ [LF]))"
proof -
  let ?new = "shipped (format_uids [''76561198000000001'', ''76561198000000007''])"
  have up: "toUpperCase ''admin'' = ''ADMIN''" by code_simp
  have v: "''ADMIN'' \<in> set validRoles" by code_simp
  have s: "steam_uid ''76561198000000007''" by code_simp
  have r: "role_uids ''ADMIN'' shipped_file = [''76561198000000001'']" by code_simp
  have u: "updateWhitelistInContent shipped_file ''ADMIN''
             [''76561198000000001'', ''76561198000000007''] = ?new" by code_simp
  have a: "addUid ''admin'' ''76561198000000007'' (Some shipped_file) = Inr (Added, Some ?new)"
    using v s r u by (simp add: addUid_eq up)
  have o: "own_block (toUpperCase ''admin'') shipped_file shipped_head
     (''if (_type isEqualTo '' @ [SQ] @ ''ADMIN'' @ [SQ] @ '') then {'')
     ([LF, TAB] @ ''/*/ Admin UIDs. /*/'' @ [LF, TAB]) ''_return = [''
     ([LF, TAB, TAB] @ quoted ''76561198000000001'' @ [LF, TAB]) ('';'' @ [LF]) ('';'' @ [LF])"
    unfolding up by code_simp
  have m: "rx_exec (update_rx (toUpperCase ''admin'')) [] shipped_file \<noteq> None"
    unfolding up by code_simp
  from a have "addUid ''admin'' ''76561198000000007'' (Some shipped_file) = Inr (Added, Some ?new) \<or>
      removeUid ''admin'' ''76561198000000007'' (Some shipped_file) = Inr (Removed, Some ?new)" ..
  note t = surgical_replace[OF this, where pre = shipped_head
      and g = "''if (_type isEqualTo '' @ [SQ] @ ''ADMIN'' @ [SQ] @ '') then {''"
      and a = "[LF, TAB] @ ''/*/ Admin UIDs. /*/'' @ [LF, TAB]" and h = "''_return = [''"
      and body = "[LF, TAB, TAB] @ quoted ''76561198000000001'' @ [LF, TAB]"
      and e = "'';'' @ [LF]" and post = "'';'' @ [LF]"]
  from t m have A: "\<exists>pre g1 old new post.
      shipped_file = pre @ g1 @ old @ '']'' @ post \<and>
      ?new = pre @ g1 @ new @ '']'' @ post \<and>
      rx_full (head_rx (toUpperCase ''admin'')) g1" by blast
  from t o have B: "\<exists>uids. list_all digit_string uids \<and>
      ?new = shipped_head @ (''if (_type isEqualTo '' @ [SQ] @ ''ADMIN'' @ [SQ] @ '') then {'')
            @ ([LF, TAB] @ ''/*/ Admin UIDs. /*/'' @ [LF, TAB]) @ ''_return = [''
            @ format_uids uids @ '']'' @ ('';'' @ [LF]) @ ''}'' @ ('';'' @ [LF])" by blast
  from a o m A B show ?thesis by blast
qed

text \<open>
  Without the role's own block in first place the replaced list can be another role's. In
  \<open>shadowed_file\<close> a commented-out guard of CAS stands above the block of S3, and the block
  of CAS follows. getUids for CAS reads the list of S3; addUid for CAS writes the new
  identifier into the list of S3, and removeUid for CAS empties the list of S3; the block
  of CAS is left as it was both times.
\<close>

theorem surgical_replace_counterexample:
  "getUids ''CAS'' (Some shadowed_file) = Inr [''76561198000000001''] \<and>
   getUids ''S3'' (Some shadowed_file) = Inr [''76561198000000001''] \<and>
   addUid ''CAS'' ''76561198000000009'' (Some shadowed_file)
     = Inr (Added, Some (shadowed
         (format_uids [''76561198000000001'', ''76561198000000009''])
         (quoted ''76561198000000002''))) \<and>
   getUids ''S3'' (Some (shadowed
         (format_uids [''76561198000000001'', ''76561198000000009''])
         (quoted ''76561198000000002'')))
     = Inr [''76561198000000001'', ''76561198000000009''] \<and>
   removeUid ''CAS'' ''76561198000000001'' (Some shadowed_file)
     = Inr (Removed, Some (shadowed (format_uids []) (quoted ''76561198000000002''))) \<and>
   getUids ''S3'' (Some (shadowed (format_uids []) (quoted ''76561198000000002''))) = Inr [] \<and>
   block ''S3'' (format_uids []) \<noteq> block ''S3'' (quoted ''76561198000000001'')"
proof -
  let ?added = "shadowed (format_uids [''76561198000000001'', ''76561198000000009''])
                  (quoted ''76561198000000002'')"
  let ?removed = "shadowed (format_uids []) (quoted ''76561198000000002'')"
  have up: "toUpperCase ''CAS'' = ''CAS''" "toUpperCase ''S3'' = ''S3''" by code_simp+
  have v: "''CAS'' \<in> set validRoles" "''S3'' \<in> set validRoles" by code_simp+
  have s: "steam_uid ''76561198000000009''" by code_simp
  have r: "role_uids ''CAS'' shadowed_file = [''76561198000000001'']"
    "role_uids ''S3'' shadowed_file = [''76561198000000001'']"
    "role_uids ''S3'' ?added = [''76561198000000001'', ''76561198000000009'']"
    "role_uids ''S3'' ?removed = []"
    by code_simp+
  have u: "updateWhitelistInContent shadowed_file ''CAS''
             [''76561198000000001'', ''76561198000000009''] = ?added"
    "updateWhitelistInContent shadowed_file ''CAS'' [] = ?removed"
    by code_simp+
  have 1: "getUids ''CAS'' (Some shadowed_file) = Inr [''76561198000000001'']"
    using v r by (simp add: getUids_eq up)
  have 2: "getUids ''S3'' (Some shadowed_file) = Inr [''76561198000000001'']"
    using v r by (simp add: getUids_eq up)
  have 3: "addUid ''CAS'' ''76561198000000009'' (Some shadowed_file) = Inr (Added, Some ?added)"
    using v s r u by (simp add: addUid_eq up)
  have 4: "getUids ''S3'' (Some ?added) = Inr [''76561198000000001'', ''76561198000000009'']"
    using v r by (simp add: getUids_eq up)
  have 5: "removeUid ''CAS'' ''76561198000000001'' (Some shadowed_file) = Inr (Removed, Some ?removed)"
    using v r u by (simp add: removeUid_eq up)
  have 6: "getUids ''S3'' (Some ?removed) = Inr []"
    using v r by (simp add: getUids_eq up)
  have 7: "block ''S3'' (format_uids []) \<noteq> block ''S3'' (quoted ''76561198000000001'')"
    by code_simp
  from 1 2 3 4 5 6 7 show ?thesis by blast
qed

section \<open>parseContent is total\<close>

text \<open>
  C6. parseContent returns a map for every content, never an error: every configured role
  has an entry, and the entry is the empty list when the role's pattern finds no block
  and when the bracket text it finds holds no piece that is a digit string.
\<close>

theorem parseContent_total:
  "\<exists>whitelists. parseContent content = Inr whitelists \<and> dom whitelists = set validRoles \<and>
     (\<forall>role \<in> set validRoles.
        (js_match (parse_rx role) content = None \<longrightarrow> whitelists role = Some []) \<and>
        (\<forall>uidsString.
           js_match (parse_rx role) content = Some [uidsString] \<and>
           (\<forall>piece \<in> set (split_comma uidsString).
              \<not> rx_full (Plus Digit) (filter (\<lambda>c. c \<notin> set [SQ, DQ]) (trim piece)))
           \<longrightarrow> whitelists role = Some []))"
proof -
  let ?w = "\<lambda>r. if r \<in> set validRoles then Some (role_uids r content) else None"
  have 1: "parseContent content = Inr ?w" by (rule parseContent_eq)
  have 2: "dom ?w = set validRoles" by (auto split: if_splits)
  have 3: "?w role = Some []"
    if "role \<in> set validRoles" "js_match (parse_rx role) content = None" for role
    using that by (simp add: role_uids_None)
  have 4: "?w role = Some []"
    if "role \<in> set validRoles" "js_match (parse_rx role) content = Some [u]"
      "\<forall>piece \<in> set (split_comma u). \<not> rx_full (Plus Digit) (filter (\<lambda>c. c \<notin> set [SQ, DQ]) (trim piece))"
    for role u
  proof -
    have "extract_uids u = []"
      unfolding extract_uids_def using that(3) by (auto simp: filter_empty_conv)
    with that(1,2) show ?thesis by (simp add: role_uids_Some)
  qed
  from 1 2 3 4 show ?thesis by blast
qed

theorem parseContent_total_witness:
  "js_match (parse_rx ''CAS'') small_file = None \<and>
   js_match (parse_rx ''ADMIN'') small_file = Some ['' ''] \<and>
   (\<exists>whitelists. parseContent small_file = Inr whitelists \<and>
      whitelists ''CAS'' = Some [] \<and> whitelists ''ADMIN'' = Some [])"
proof -
  have cas: "''CAS'' \<in> set validRoles" and adm: "''ADMIN'' \<in> set validRoles" by code_simp+
  have n: "js_match (parse_rx ''CAS'') small_file = None" by code_simp
  have s: "js_match (parse_rx ''ADMIN'') small_file = Some ['' '']" by code_simp
  have e: "\<forall>piece \<in> set (split_comma '' '').
      \<not> rx_full (Plus Digit) (filter (\<lambda>c. c \<notin> set [SQ, DQ]) (trim piece))" by code_simp
  from parseContent_total[of small_file] obtain w where
    w: "parseContent small_file = Inr w"
    and a: "\<forall>role \<in> set validRoles.
        (js_match (parse_rx role) small_file = None \<longrightarrow> w role = Some []) \<and>
        (\<forall>uidsString.
           js_match (parse_rx role) small_file = Some [uidsString] \<and>
           (\<forall>piece \<in> set (split_comma uidsString).
              \<not> rx_full (Plus Digit) (filter (\<lambda>c. c \<notin> set [SQ, DQ]) (trim piece)))
           \<longrightarrow> w role = Some [])"
    by blast
  from a cas n have "w ''CAS'' = Some []" by blast
  moreover from a adm s e have "w ''ADMIN'' = Some []" by blast
  ultimately show ?thesis using n s w by blast
qed

section \<open>Which role arguments are accepted\<close>

text \<open>
  C7 (as amended). In the text-file variant, addUid and removeUid reject a role argument
  as invalid exactly when its upper-case form is not a configured code, that is, when
  it matches no code up to case. The database read path QS_fnc_whitelistDB compares the
  type as it is given: a type that is not literally one of the codes gets the empty
  result and nothing else happens, whatever its upper-case form is.
\<close>

theorem role_validity:
  "(addUid role uid file = Inr (InvalidRole, file) \<longleftrightarrow> toUpperCase role \<notin> set validRoles) \<and>
   (removeUid role uid file = Inr (InvalidRole, file) \<longleftrightarrow> toUpperCase role \<notin> set validRoles) \<and>
   (toUpperCase role \<in> set validRoles \<longleftrightarrow>
      (\<exists>code \<in> set validRoles. toUpperCase role = toUpperCase code)) \<and>
   (typ \<notin> set validTypes \<longrightarrow>
      QS_fnc_whitelistDB typ forceRefresh ns currentTime answer QS_fnc_whitelistFile = ([], ns)) \<and>
   (typ \<in> set validTypes \<and> QS_server_isUsingDB ns = None \<longrightarrow>
      QS_fnc_whitelistDB typ forceRefresh ns currentTime answer QS_fnc_whitelistFile
        = (QS_fnc_whitelistFile typ, ns)) \<and>
   set validTypes = set validRoles"
proof -
  have 1: "addUid role uid file = Inr (InvalidRole, file) \<longleftrightarrow> toUpperCase role \<notin> set validRoles"
    by (auto simp: addUid_def readFile_def parseContent_eq Let_def split: option.splits if_splits)
  have 2: "removeUid role uid file = Inr (InvalidRole, file) \<longleftrightarrow> toUpperCase role \<notin> set validRoles"
    by (auto simp: removeUid_def readFile_def parseContent_eq Let_def split: option.splits if_splits)
  have 3: "toUpperCase role \<in> set validRoles \<longleftrightarrow>
      (\<exists>code \<in> set validRoles. toUpperCase role = toUpperCase code)"
    using validRoles_upper by metis
  have 4: "typ \<notin> set validTypes \<longrightarrow>
      QS_fnc_whitelistDB typ forceRefresh ns currentTime answer QS_fnc_whitelistFile = ([], ns)"
    by (simp add: QS_fnc_whitelistDB_def)
  have 5: "typ \<in> set validTypes \<and> QS_server_isUsingDB ns = None \<longrightarrow>
      QS_fnc_whitelistDB typ forceRefresh ns currentTime answer QS_fnc_whitelistFile
        = (QS_fnc_whitelistFile typ, ns)"
    by (simp add: QS_fnc_whitelistDB_def)
  have 6: "set validTypes = set validRoles" by code_simp
  from 1 2 3 4 5 6 show ?thesis by blast
qed

theorem role_validity_witness:
  "toUpperCase ''admin'' \<in> set validRoles \<and>
   addUid ''admin'' ''x'' None \<noteq> Inr (InvalidRole, None) \<and>
   ''admin'' \<notin> set validTypes \<and>
   QS_fnc_whitelistDB ''admin'' False cached_ns 150 (Sync None) file_list = ([], cached_ns) \<and>
   ''ADMIN'' \<in> set validTypes \<and>
   QS_server_isUsingDB (cached_ns\<lparr>QS_server_isUsingDB := None\<rparr>) = None \<and>
   QS_fnc_whitelistDB ''ADMIN'' False (cached_ns\<lparr>QS_server_isUsingDB := None\<rparr>) 150 (Sync None) file_list
     = (file_list ''ADMIN'', cached_ns\<lparr>QS_server_isUsingDB := None\<rparr>)"
proof -
  have a: "toUpperCase ''admin'' \<in> set validRoles" by code_simp
  have b: "''admin'' \<notin> set validTypes" by code_simp
  have c: "''ADMIN'' \<in> set validTypes" by code_simp
  have d: "QS_server_isUsingDB (cached_ns\<lparr>QS_server_isUsingDB := None\<rparr>) = None" by simp
  note t1 = role_validity[of "''admin''" "''x''" None "''admin''" False cached_ns 150 "Sync None" file_list]
  note t2 = role_validity[of "''admin''" "''x''" None "''ADMIN''" False
      "cached_ns\<lparr>QS_server_isUsingDB := None\<rparr>" 150 "Sync None" file_list]
  from t1 a have "addUid ''admin'' ''x'' None \<noteq> Inr (InvalidRole, None)" by blast
  moreover from t1 b have "QS_fnc_whitelistDB ''admin'' False cached_ns 150 (Sync None) file_list = ([], cached_ns)"
    by blast
  moreover from t2 c d have "QS_fnc_whitelistDB ''ADMIN'' False (cached_ns\<lparr>QS_server_isUsingDB := None\<rparr>) 150 (Sync None) file_list
     = (file_list ''ADMIN'', cached_ns\<lparr>QS_server_isUsingDB := None\<rparr>)" by blast
  ultimately show ?thesis using a b c d by blast
qed

text \<open>The claim as stated fails in the database variant: \<open>admin\<close> is a valid role for
  addUid (it goes on to read the file), and QS_fnc_whitelistDB answers it with the empty
  list where \<open>ADMIN\<close> gets the file's list.\<close>

theorem role_validity_counterexample:
  "toUpperCase ''admin'' \<in> set validRoles \<and>
   addUid ''admin'' ''76561198000000099'' None = Inl File_not_found \<and>
   ''admin'' \<notin> set validTypes \<and>
   fst (QS_fnc_whitelistDB ''admin'' False (cached_ns\<lparr>QS_server_isUsingDB := None\<rparr>) 150 (Sync None) file_list) = [] \<and>
   fst (QS_fnc_whitelistDB ''ADMIN'' False (cached_ns\<lparr>QS_server_isUsingDB := None\<rparr>) 150 (Sync None) file_list)
     = [Str ''76561198000000009'']"
proof -
  have a: "toUpperCase ''admin'' \<in> set validRoles" by code_simp
  have b: "addUid ''admin'' ''76561198000000099'' None = Inl File_not_found" by code_simp
  have c: "''admin'' \<notin> set validTypes" by code_simp
  have c': "''ADMIN'' \<in> set validTypes" by code_simp
  have d: "fst (QS_fnc_whitelistDB ''admin'' False (cached_ns\<lparr>QS_server_isUsingDB := None\<rparr>) 150 (Sync None) file_list) = []"
    using c by (simp add: QS_fnc_whitelistDB_def)
  have e: "fst (QS_fnc_whitelistDB ''ADMIN'' False (cached_ns\<lparr>QS_server_isUsingDB := None\<rparr>) 150 (Sync None) file_list)
     = [Str ''76561198000000009'']"
    using c' by (simp add: QS_fnc_whitelistDB_def file_list_def)
  from a b c d e show ?thesis by blast
qed

section \<open>The cache of the database read path\<close>

text \<open>
  C8. For a valid type with the database in use: a cached, non-empty result younger than
  the cache duration is returned as it is unless a refresh is forced, and the duration is
  300 seconds when \<open>QS_whitelist_cacheDuration\<close> is not set; a forced refresh, an empty
  or missing cache entry and an entry as old as the duration or older all lead to a
  query, whose result is stored with the current time; and the result is the file-based
  whitelist whenever the query throws or yields no row.
\<close>

theorem whitelistDB_cache:
  assumes "typ \<in> set validTypes" and "QS_server_isUsingDB ns = Some True"
  shows
   "(let cacheDuration = (case QS_whitelist_cacheDuration ns of None \<Rightarrow> 300 | Some d \<Rightarrow> d);
         cachedResult = (case QS_whitelist_cache ns typ of None \<Rightarrow> [] | Some r \<Rightarrow> r);
         cacheTime = (case QS_whitelist_cacheTime ns typ of None \<Rightarrow> 0 | Some t \<Rightarrow> t);
         queried = query_db answer QS_fnc_whitelistFile typ;
         result = QS_fnc_whitelistDB typ forceRefresh ns currentTime answer QS_fnc_whitelistFile
     in (\<not> forceRefresh \<and> cachedResult \<noteq> [] \<and> currentTime - cacheTime < cacheDuration
           \<longrightarrow> result = (cachedResult, ns)) \<and>
        (forceRefresh \<or> cachedResult = [] \<or> cacheDuration \<le> currentTime - cacheTime
           \<longrightarrow> QS_whitelist_cache (snd result) typ = Some (fst result) \<and>
               QS_whitelist_cacheTime (snd result) typ = Some currentTime \<and>
               (answer = Thrown \<or> queried = [] \<longrightarrow> fst result = QS_fnc_whitelistFile typ) \<and>
               (queried \<noteq> [] \<longrightarrow> fst result = queried)))"
  using assms
  by (auto simp: QS_fnc_whitelistDB_def Let_def query_db_def)

theorem whitelistDB_cache_witness:
  "''ADMIN'' \<in> set validTypes \<and> QS_server_isUsingDB cached_ns = Some True \<and>
   QS_fnc_whitelistDB ''ADMIN'' False cached_ns 399 (Sync None) file_list
     = ([Str ''76561198000000001''], cached_ns) \<and>
   fst (QS_fnc_whitelistDB ''ADMIN'' False cached_ns 400 (Sync None) file_list) = file_list ''ADMIN'' \<and>
   fst (QS_fnc_whitelistDB ''ADMIN'' True cached_ns 150 Thrown file_list) = file_list ''ADMIN'' \<and>
   fst (QS_fnc_whitelistDB ''ADMIN'' True cached_ns 150
          (Sync (Some [Num 1, Arr [Arr [Str ''76561198000000005'']]])) file_list)
     = [Str ''76561198000000005'']"
proof -
  have v: "''ADMIN'' \<in> set validTypes" by code_simp
  have u: "QS_server_isUsingDB cached_ns = Some True" by (simp add: cached_ns_def)
  have q0: "query_db (Sync None) file_list ''ADMIN'' = []" by (simp add: query_db_def)
  have q1: "query_db (Sync (Some [Num 1, Arr [Arr [Str ''76561198000000005'']]])) file_list ''ADMIN''
      = [Str ''76561198000000005'']" by (simp add: query_db_def pushBackUnique_def)
  have 1: "QS_fnc_whitelistDB ''ADMIN'' False cached_ns 399 (Sync None) file_list
     = ([Str ''76561198000000001''], cached_ns)"
    using whitelistDB_cache[OF v u, of "Sync None" file_list False 399]
    by (simp add: Let_def cached_ns_def)
  have 2: "fst (QS_fnc_whitelistDB ''ADMIN'' False cached_ns 400 (Sync None) file_list) = file_list ''ADMIN''"
    using whitelistDB_cache[OF v u, of "Sync None" file_list False 400] q0
    by (simp add: Let_def cached_ns_def)
  have 3: "fst (QS_fnc_whitelistDB ''ADMIN'' True cached_ns 150 Thrown file_list) = file_list ''ADMIN''"
    using whitelistDB_cache[OF v u, of Thrown file_list True 150]
    by (simp add: Let_def)
  have 4: "fst (QS_fnc_whitelistDB ''ADMIN'' True cached_ns 150
          (Sync (Some [Num 1, Arr [Arr [Str ''76561198000000005'']]])) file_list)
     = [Str ''76561198000000005'']"
    using whitelistDB_cache[OF v u, of "Sync (Some [Num 1, Arr [Arr [Str ''76561198000000005'']]])" file_list True 150] q1
    by (simp add: Let_def)
  from v u 1 2 3 4 show ?thesis by blast
qed

section \<open>addUid when the role has no block\<close>

text \<open>
  C9. For a role whose upper-case form is a configured code and a 17-digit identifier not
  yet listed for it: when the pattern of updateWhitelistInContent finds no match in the
  file, addUid replies with success, the file it writes is the file it read, and the
  list of the role afterwards still lacks the identifier.
\<close>

theorem addUid_without_block:
  assumes "toUpperCase role \<in> set validRoles"
    and "steam_uid uid"
    and "getUids role (Some content) = Inr uids"
    and "uid \<notin> set uids"
    and "rx_exec (update_rx (toUpperCase role)) [] content = None"
  shows "addUid role uid (Some content) = Inr (Added, Some content) \<and> success Added \<and>
         (\<exists>uids'. getUids role (Some content) = Inr uids' \<and> uid \<notin> set uids')"
proof -
  from assms(1,3) have l: "uids = role_uids (toUpperCase role) content"
    by (simp add: getUids_eq)
  have "updateWhitelistInContent content (toUpperCase role) (uids @ [uid]) = content"
    using assms(5) by (simp add: updateWhitelistInContent_def js_replace_def)
  with assms l have "addUid role uid (Some content) = Inr (Added, Some content)"
    by (simp add: addUid_def uid_format readFile_def parseContent_eq)
  with assms(3,4) show ?thesis by (simp add: success_def)
qed

theorem addUid_without_block_witness:
  "toUpperCase ''cas'' \<in> set validRoles \<and> steam_uid ''76561198000000099'' \<and>
   getUids ''cas'' (Some small_file) = Inr [] \<and>
   rx_exec (update_rx (toUpperCase ''cas'')) [] small_file = None \<and>
   addUid ''cas'' ''76561198000000099'' (Some small_file) = Inr (Added, Some small_file)"
proof -
  have 1: "toUpperCase ''cas'' \<in> set validRoles" by code_simp
  have 2: "steam_uid ''76561198000000099''" by code_simp
  have 3: "getUids ''cas'' (Some small_file) = Inr []" by code_simp
  have 4: "''76561198000000099'' \<notin> set ([] :: string list)" by simp
  have 5: "rx_exec (update_rx (toUpperCase ''cas'')) [] small_file = None" by code_simp
  from addUid_without_block[OF 1 2 3 4 5] 1 2 3 5 show ?thesis by simp
qed

section \<open>Identifiers of other lengths\<close>



end
